theory Spec2Isabelle
  imports Complex_Main "HOL-Library.Word"
begin

section \<open>Voice-activity segmentation (backend/app/services/vad\_service.py)\<close>

text \<open>
  A shallow embedding of \<^verbatim>\<open>VadState\<close> and \<^verbatim>\<open>VadService\<close>. Audio is a list of bytes.
  Everything the Python reaches outside the module is explicit:
  \<^item> the loaded Silero model is a function from the outside world and the normalised
    samples to either an exception or a probability, together with the world after the
    call (the model may keep hidden state);
  \<^item> \<^verbatim>\<open>time.time()\<close> reads the world and advances it;
  \<^item> numpy's float32 evaluation of \<^verbatim>\<open>np.sqrt(np.mean(audio_f32 ** 2))\<close> is a function
    \<open>rms\<close> from the normalised samples to the number it returns, and numpy's
    comparison of that \<^verbatim>\<open>np.float32\<close> with the Python float \<^verbatim>\<open>RMS_NOISE_GATE\<close> is a
    function \<open>np_less\<close>, since its outcome at the edge depends on how numpy promotes
    the two;
  \<^item> the float64 product \<^verbatim>\<open>time.time() * 1000\<close> is a function \<open>float_mul\<close>;
  \<^item> the awaited callback \<^verbatim>\<open>on_utterance_detected\<close> is recorded as the list of its
    arguments, in call order, and is taken to return; \<open>cb\<close> says whether a callback was
    passed at all (the Python tests \<^verbatim>\<open>if on_utterance_detected:\<close>);
  \<^item> an exception is a value of type \<open>exn\<close> in the field \<open>raised\<close> of an outcome; the
    state an outcome carries is the state as mutated up to the raise;
  \<^item> the calls for one connection are serialised, as the callers of the module do.
  Python floats are modelled by the reals they denote. The probability is a float64
  handed in from outside and compared with the float64 constants 0.85 and 0.50. The
  module's remaining float arithmetic is \<open>k / n\<close> compared with 0.90 and 0.25, and
  \<open>int(0.6 * n)\<close>, for \<open>0 \<le> k \<le> n \<le> 15\<close>; on these the float64 results agree with the
  exact ones. A NaN probability fails both comparisons of the decision and gives
  non-speech, as every real not above 0.85 does.
\<close>

subsection \<open>Audio constants and tuning\<close>

type_synonym byte = "8 word"
type_synonym bytes = "byte list"

text \<open>Python's \<^verbatim>\<open>int(x)\<close> on a float: truncation towards zero.\<close>

definition py_int :: "real \<Rightarrow> int" where
  "py_int x = (if 0 \<le> x then \<lfloor>x\<rfloor> else \<lceil>x\<rceil>)"

definition SAMPLE_RATE :: nat where
  "SAMPLE_RATE = 16000"

definition FRAME_DURATION_MS :: nat where
  "FRAME_DURATION_MS = 32"

definition FRAME_SAMPLES :: nat where
  "FRAME_SAMPLES = nat (py_int (real (SAMPLE_RATE * FRAME_DURATION_MS) / 1000))"

definition FRAME_BYTES :: nat where
  "FRAME_BYTES = FRAME_SAMPLES * 2"

definition RMS_NOISE_GATE :: real where
  "RMS_NOISE_GATE = 0.01"

definition STRONG_SPEECH_PROB :: real where
  "STRONG_SPEECH_PROB = 0.85"

definition WEAK_SPEECH_PROB :: real where
  "WEAK_SPEECH_PROB = 0.50"

definition SPEECH_BUFFER_DURATION_MS :: nat where
  "SPEECH_BUFFER_DURATION_MS = 480"

definition SPEECH_BUFFER_FRAMES :: nat where
  "SPEECH_BUFFER_FRAMES = SPEECH_BUFFER_DURATION_MS div FRAME_DURATION_MS"

definition SPEECH_TRIGGER_RATIO :: real where
  "SPEECH_TRIGGER_RATIO = 0.90"

definition SPEECH_RELEASE_RATIO :: real where
  "SPEECH_RELEASE_RATIO = 0.25"

definition MIN_UTTERANCE_DURATION_S :: real where
  "MIN_UTTERANCE_DURATION_S = 1.2"

definition MIN_UTTERANCE_SAMPLES :: nat where
  "MIN_UTTERANCE_SAMPLES = nat (py_int (real SAMPLE_RATE * MIN_UTTERANCE_DURATION_S))"

definition PRE_SPEECH_MS :: nat where
  "PRE_SPEECH_MS = 400"

definition PRE_SPEECH_FRAMES :: nat where
  "PRE_SPEECH_FRAMES = PRE_SPEECH_MS div FRAME_DURATION_MS"

definition TRAILING_SILENCE_MS :: nat where
  "TRAILING_SILENCE_MS = 700"

definition TRAILING_SILENCE_FRAMES :: nat where
  "TRAILING_SILENCE_FRAMES = TRAILING_SILENCE_MS div FRAME_DURATION_MS"

subsection \<open>Library behaviour the module relies on\<close>

text \<open>
  \<^verbatim>\<open>collections.deque(maxlen=n).append(x)\<close>: nothing is stored when \<open>n = 0\<close>; otherwise
  \<open>x\<close> goes to the right end and, when that makes the deque longer than \<open>n\<close>, one item
  is discarded from the left end.
\<close>

definition deque_append :: "nat \<Rightarrow> 'a list \<Rightarrow> 'a \<Rightarrow> 'a list" where
  "deque_append maxlen d x =
     (if maxlen = 0 then d
      else if maxlen < length (d @ [x]) then tl (d @ [x]) else d @ [x])"

text \<open>
  \<^verbatim>\<open>np.frombuffer(frame_bytes, dtype=np.int16)\<close>: consecutive byte pairs, low byte first.
  It is only applied to frames of exactly \<open>FRAME_BYTES\<close> bytes, an even number, so the
  last equation (a dangling byte) is never reached from \<open>process_frame\<close>.
\<close>

fun frombuffer_int16 :: "bytes \<Rightarrow> 16 word list" where
  "frombuffer_int16 (lo # hi # rest) = word_cat hi lo # frombuffer_int16 rest"
| "frombuffer_int16 _ = []"

text \<open>
  \<^verbatim>\<open>.astype(np.float32) / 32768.0\<close>: every int16 value and its quotient by \<open>2^15\<close> is a
  float32, so the normalised samples are exact.
\<close>

definition audio_f32 :: "bytes \<Rightarrow> real list" where
  "audio_f32 frame_bytes = map (\<lambda>s. real_of_int (sint s) / 32768) (frombuffer_int16 frame_bytes)"

text \<open>Decimal rendering of an integer, as an f-string does it.\<close>

fun str_nat :: "nat \<Rightarrow> string" where
  "str_nat n = (if n < 10 then [char_of (48 + n)]
                else str_nat (n div 10) @ [char_of (48 + n mod 10)])"

declare str_nat.simps [simp del]

definition str_int :: "int \<Rightarrow> string" where
  "str_int i = (if i < 0 then CHR ''-'' # str_nat (nat (- i)) else str_nat (nat i))"

subsection \<open>State, service and outcomes\<close>

datatype exn = PyException string

text \<open>The model call \<^verbatim>\<open>self.model(samples, SAMPLE_RATE).item()\<close>.\<close>

type_synonym 'w scorer = "'w \<Rightarrow> real list \<Rightarrow> nat \<Rightarrow> (exn + real) \<times> 'w"

text \<open>
  What the module takes from numpy, from float64 arithmetic and from the clock:
  \<open>rms xs\<close> is the \<^verbatim>\<open>np.float32\<close> that \<^verbatim>\<open>np.sqrt(np.mean(xs ** 2))\<close> returns;
  \<open>np_less r c\<close> is numpy's \<^verbatim>\<open>r < c\<close> for an \<^verbatim>\<open>np.float32\<close> \<open>r\<close> and a Python float \<open>c\<close>
  (NumPy 2 compares in float32, with \<open>c\<close> rounded to float32; older versions compare
  in float64); \<open>float_mul a b\<close> is the float64 product \<^verbatim>\<open>a * b\<close>; \<open>time_time\<close> is
  \<^verbatim>\<open>time.time()\<close>.
\<close>

record 'w host =
  rms :: "real list \<Rightarrow> real"
  np_less :: "real \<Rightarrow> real \<Rightarrow> bool"
  float_mul :: "real \<Rightarrow> real \<Rightarrow> real"
  time_time :: "'w \<Rightarrow> real \<times> 'w"

record VadState =
  speech_buffer :: bytes
  pre_speech_buffer :: "bytes list"
  vad_decision_buffer :: "bool list"
  trailing_silence_buffer :: "bytes list"
  in_speech :: bool
  speech_start_time :: "real option"
  current_utterance_id :: "string option"
  partial_frame :: bytes

record 'w VadService =
  model :: "'w scorer option"
  vad_model_loaded :: bool
  connections :: "string \<rightharpoonup> VadState"

record ('s, 'w) outcome =
  after :: 's
  world :: 'w
  sunk :: "bytes list"
  raised :: "exn option"

definition returned :: "'s \<Rightarrow> 'w \<Rightarrow> bytes list \<Rightarrow> ('s, 'w) outcome" where
  "returned s w out = \<lparr>after = s, world = w, sunk = out, raised = None\<rparr>"

text \<open>
  \<^verbatim>\<open>VadState.reset\<close> assigns every field, so the state after it is one constant; the three
  deques hold their \<open>maxlen\<close> in the constants above. \<^verbatim>\<open>VadState.__init__\<close> is \<open>reset\<close>.
\<close>

definition reset :: VadState where
  "reset = \<lparr>speech_buffer = [], pre_speech_buffer = [], vad_decision_buffer = [],
            trailing_silence_buffer = [], in_speech = False, speech_start_time = None,
            current_utterance_id = None, partial_frame = []\<rparr>"

text \<open>
  \<^verbatim>\<open>VadService.__init__\<close> with \<^verbatim>\<open>_load_model\<close>: the argument is the model that
  \<^verbatim>\<open>torch.hub.load\<close> returned, \<open>None\<close> when torch is not installed or loading raised.
\<close>

definition VadService_init :: "'w scorer option \<Rightarrow> 'w VadService" where
  "VadService_init loaded =
     \<lparr>model = loaded, vad_model_loaded = (loaded \<noteq> None), connections = Map.empty\<rparr>"

text \<open>\<^verbatim>\<open>get_state\<close> returns the state object of the connection and the service, which
  holds a fresh state for the connection when it had none.\<close>

definition get_state :: "'w VadService \<Rightarrow> string \<Rightarrow> VadState \<times> 'w VadService" where
  "get_state svc connection_id =
     (case connections svc connection_id of
        None \<Rightarrow> (reset, svc\<lparr>connections := (connections svc)(connection_id \<mapsto> reset)\<rparr>)
      | Some state \<Rightarrow> (state, svc))"

definition cleanup_connection :: "'w VadService \<Rightarrow> string \<Rightarrow> 'w VadService" where
  "cleanup_connection svc connection_id =
     (if connection_id \<in> dom (connections svc)
      then svc\<lparr>connections := (connections svc)(connection_id := None)\<rparr>
      else svc)"

subsection \<open>Processing one frame\<close>

text \<open>Lines 165--178: PCM to float, the RMS noise gate, the model call.\<close>

definition speech_prob :: "'w host \<Rightarrow> 'w VadService \<Rightarrow> bytes \<Rightarrow> 'w \<Rightarrow> (exn + real) \<times> 'w" where
  "speech_prob H svc frame_bytes w =
     (if np_less H (rms H (audio_f32 frame_bytes)) RMS_NOISE_GATE then (Inr 0, w)
      else case model svc of
             None \<Rightarrow> (Inl (PyException ''TypeError''), w)
           | Some m \<Rightarrow> m w (audio_f32 frame_bytes) SAMPLE_RATE)"

text \<open>Lines 180--186: the probability-weighted decision.\<close>

definition is_speech :: "real \<Rightarrow> bool" where
  "is_speech p =
     (if p > STRONG_SPEECH_PROB then True
      else if p < WEAK_SPEECH_PROB then False
      else False)"

text \<open>Lines 188--242: the decision window, the pre-speech ring and the state machine.\<close>

definition min_utterance_bytes :: nat where
  "min_utterance_bytes = MIN_UTTERANCE_SAMPLES * 2"

definition speech_ratio :: "bool list \<Rightarrow> real" where
  "speech_ratio dec =
     (if length dec \<noteq> 0 then real (count_list dec True) / real (length dec) else 0)"

definition state_machine ::
  "'w host \<Rightarrow> VadState \<Rightarrow> bytes \<Rightarrow> bool \<Rightarrow> bool \<Rightarrow> 'w \<Rightarrow> (VadState, 'w) outcome" where
  "state_machine H state frame_bytes speech cb w =
     (let dec = deque_append SPEECH_BUFFER_FRAMES (vad_decision_buffer state) speech;
          speech_frames = count_list dec True;
          total_frames = length dec;
          pre = deque_append PRE_SPEECH_FRAMES (pre_speech_buffer state) frame_bytes;
          s1 = state\<lparr>vad_decision_buffer := dec, pre_speech_buffer := pre\<rparr>
      in if \<not> in_speech s1 then
           (if speech_ratio dec \<ge> SPEECH_TRIGGER_RATIO
                \<and> int speech_frames \<ge> py_int (0.6 * real total_frames) then
              (let (t1, w1) = time_time H w;
                   (t2, w2) = time_time H w1
               in returned
                    (s1\<lparr>in_speech := True,
                        speech_start_time := Some t1,
                        current_utterance_id :=
                          Some (''utt_'' @ str_int (py_int (float_mul H t2 1000))),
                        speech_buffer := speech_buffer s1 @ concat pre @ frame_bytes,
                        trailing_silence_buffer := []\<rparr>) w2 [])
            else returned s1 w [])
         else
           (let s2 = s1\<lparr>speech_buffer := speech_buffer s1 @ frame_bytes\<rparr> in
            if speech_ratio dec < SPEECH_RELEASE_RATIO then
              (let s3 = s2\<lparr>trailing_silence_buffer :=
                            deque_append TRAILING_SILENCE_FRAMES (trailing_silence_buffer s2) frame_bytes\<rparr>
               in if length (trailing_silence_buffer s3) = TRAILING_SILENCE_FRAMES then
                    returned reset w
                      (if min_utterance_bytes \<le> length (speech_buffer s3) \<and> cb
                       then [speech_buffer s3] else [])
                  else returned s3 w [])
            else returned (s2\<lparr>trailing_silence_buffer := []\<rparr>) w []))"

text \<open>\<^verbatim>\<open>_process_frame\<close>. A raise of the model call leaves the state as it was.\<close>

definition process_frame ::
  "'w host \<Rightarrow> 'w VadService \<Rightarrow> VadState \<Rightarrow> bytes \<Rightarrow> bool \<Rightarrow> 'w \<Rightarrow> (VadState, 'w) outcome" where
  "process_frame H svc state frame_bytes cb w =
     (if length frame_bytes \<noteq> FRAME_BYTES then returned state w []
      else case speech_prob H svc frame_bytes w of
             (Inl e, w') \<Rightarrow> \<lparr>after = state, world = w', sunk = [], raised = Some e\<rparr>
           | (Inr p, w') \<Rightarrow> state_machine H state frame_bytes (is_speech p) cb w')"

subsection \<open>Processing a chunk\<close>

text \<open>
  The \<^verbatim>\<open>while offset < len(audio_bytes)\<close> loop of \<^verbatim>\<open>process_audio_chunk\<close>; the argument
  \<open>audio\<close> is \<^verbatim>\<open>audio_bytes[offset:]\<close>. A raise in a frame leaves the loop.
\<close>

function frames_loop ::
  "'w host \<Rightarrow> 'w VadService \<Rightarrow> VadState \<Rightarrow> bytes \<Rightarrow> bool \<Rightarrow> 'w \<Rightarrow> (VadState, 'w) outcome" where
  "frames_loop H svc state audio cb w =
     (if audio = [] then returned state w []
      else if FRAME_BYTES \<le> length audio then
        (let r1 = process_frame H svc state (take FRAME_BYTES audio) cb w in
         if raised r1 \<noteq> None then r1
         else (let r2 = frames_loop H svc (after r1) (drop FRAME_BYTES audio) cb (world r1)
               in r2\<lparr>sunk := sunk r1 @ sunk r2\<rparr>))
      else returned (state\<lparr>partial_frame := partial_frame state @ audio\<rparr>) w [])"
  by pat_completeness auto
termination
  by (relation "measure (\<lambda>(H, svc, state, audio, cb, w). length audio)")
     (auto simp: FRAME_BYTES_def FRAME_SAMPLES_def SAMPLE_RATE_def FRAME_DURATION_MS_def py_int_def)

declare frames_loop.simps [simp del]

text \<open>
  \<^verbatim>\<open>process_audio_chunk\<close>. The state object lives in \<^verbatim>\<open>self.connections\<close> and is mutated
  in place, so the service after the call maps the connection to the state the loop left.
\<close>

definition process_audio_chunk ::
  "'w host \<Rightarrow> 'w VadService \<Rightarrow> string \<Rightarrow> bytes \<Rightarrow> bool \<Rightarrow> 'w \<Rightarrow> ('w VadService, 'w) outcome" where
  "process_audio_chunk H svc connection_id audio_bytes cb w =
     (if \<not> vad_model_loaded svc then
        returned svc w (if cb then [audio_bytes] else [])
      else
        (let (state, svc1) = get_state svc connection_id;
             audio = (if partial_frame state \<noteq> [] then partial_frame state @ audio_bytes
                      else audio_bytes);
             state1 = (if partial_frame state \<noteq> [] then state\<lparr>partial_frame := []\<rparr> else state);
             r = frames_loop H svc state1 audio cb w
         in \<lparr>after = svc1\<lparr>connections := (connections svc1)(connection_id \<mapsto> after r)\<rparr>,
             world = world r, sunk = sunk r, raised = raised r\<rparr>))"

subsection \<open>Sequences of calls\<close>

text \<open>
  Successive \<^verbatim>\<open>process_audio_chunk\<close> calls for one connection, as in
  \<^verbatim>\<open>for c in chunks: await service.process_audio_chunk(cid, c, callback)\<close>: an exception
  leaves the sequence.
\<close>

fun feed ::
  "'w host \<Rightarrow> 'w VadService \<Rightarrow> string \<Rightarrow> bytes list \<Rightarrow> bool \<Rightarrow> 'w \<Rightarrow> ('w VadService, 'w) outcome" where
  "feed H svc connection_id [] cb w = returned svc w []"
| "feed H svc connection_id (c # cs) cb w =
     (let r1 = process_audio_chunk H svc connection_id c cb w in
      if raised r1 \<noteq> None then r1
      else (let r2 = feed H (after r1) connection_id cs cb (world r1)
            in r2\<lparr>sunk := sunk r1 @ sunk r2\<rparr>))"

text \<open>
  The services a caller can hold: a constructed service, and what any
  \<^verbatim>\<open>process_audio_chunk\<close> call (returning or raising) and any \<^verbatim>\<open>cleanup_connection\<close>
  call make of one.
\<close>

inductive reachable :: "'w host \<Rightarrow> 'w VadService \<Rightarrow> bool" for H :: "'w host" where
  constructed: "reachable H (VadService_init loaded)"
| chunk: "reachable H svc \<Longrightarrow>
          reachable H (after (process_audio_chunk H svc connection_id audio_bytes cb w))"
| cleanup: "reachable H svc \<Longrightarrow> reachable H (cleanup_connection svc connection_id)"

subsection \<open>The frame splitter as the specification words it\<close>

text \<open>
  The contract of the splitter, \<open>split(remainder, chunk) -> (frames, new remainder)\<close>:
  every complete \<open>FRAME_BYTES\<close>-sized prefix of the remainder followed by the chunk is a
  frame, in byte order, and the incomplete tail is the new remainder.
\<close>

function frames_of :: "bytes \<Rightarrow> bytes list" where
  "frames_of xs =
     (if FRAME_BYTES \<le> length xs then take FRAME_BYTES xs # frames_of (drop FRAME_BYTES xs)
      else [])"
  by pat_completeness auto
termination
  by (relation "measure length")
     (auto simp: FRAME_BYTES_def FRAME_SAMPLES_def SAMPLE_RATE_def FRAME_DURATION_MS_def py_int_def)

declare frames_of.simps [simp del]

function remainder_of :: "bytes \<Rightarrow> bytes" where
  "remainder_of xs =
     (if FRAME_BYTES \<le> length xs then remainder_of (drop FRAME_BYTES xs) else xs)"
  by pat_completeness auto
termination
  by (relation "measure length")
     (auto simp: FRAME_BYTES_def FRAME_SAMPLES_def SAMPLE_RATE_def FRAME_DURATION_MS_def py_int_def)

declare remainder_of.simps [simp del]

definition splitter :: "bytes \<Rightarrow> bytes \<Rightarrow> bytes list \<times> bytes" where
  "splitter remainder chunk = (frames_of (remainder @ chunk), remainder_of (remainder @ chunk))"

text \<open>\<^verbatim>\<open>_process_frame\<close> on a sequence of frames, in order, up to the first raise.\<close>

fun run_frames ::
  "'w host \<Rightarrow> 'w VadService \<Rightarrow> VadState \<Rightarrow> bytes list \<Rightarrow> bool \<Rightarrow> 'w \<Rightarrow> (VadState, 'w) outcome" where
  "run_frames H svc state [] cb w = returned state w []"
| "run_frames H svc state (f # fs) cb w =
     (let r1 = process_frame H svc state f cb w in
      if raised r1 \<noteq> None then r1
      else (let r2 = run_frames H svc (after r1) fs cb (world r1)
            in r2\<lparr>sunk := sunk r1 @ sunk r2\<rparr>))"

text \<open>The end of the loop: unless a frame raised, the incomplete tail is kept.\<close>

definition store_remainder :: "(VadState, 'w) outcome \<Rightarrow> bytes \<Rightarrow> (VadState, 'w) outcome" where
  "store_remainder r rem =
     (if raised r \<noteq> None then r
      else r\<lparr>after := (after r)\<lparr>partial_frame := partial_frame (after r) @ rem\<rparr>\<rparr>)"

subsection \<open>Vocabulary of the properties\<close>

text \<open>
  A connection state is well formed when an idle state holds no accumulated speech and
  the stored remainder is shorter than a frame.
\<close>

definition state_ok :: "VadState \<Rightarrow> bool" where
  "state_ok st \<longleftrightarrow>
     (\<not> in_speech st \<longrightarrow> speech_buffer st = []) \<and> length (partial_frame st) < FRAME_BYTES"

text \<open>
  \<open>gated H f\<close>: the noise-gate test of \<open>speech_prob\<close>,
  \<^verbatim>\<open>rms < RMS_NOISE_GATE\<close> as numpy evaluates it, holds for the frame \<open>f\<close>.
\<close>

definition gated :: "'w host \<Rightarrow> bytes \<Rightarrow> bool" where
  "gated H f \<longleftrightarrow> np_less H (rms H (audio_f32 f)) RMS_NOISE_GATE"

text \<open>
  \<open>scores H svc f p\<close>: \<open>f\<close> is a complete frame that passes the noise gate and that the
  loaded model scores with probability \<open>p\<close>, whatever the state of the world.
\<close>

definition scores :: "'w host \<Rightarrow> 'w VadService \<Rightarrow> bytes \<Rightarrow> real \<Rightarrow> bool" where
  "scores H svc f p \<longleftrightarrow>
     length f = FRAME_BYTES \<and> \<not> gated H f \<and>
     (\<exists>m. model svc = Some m \<and> (\<forall>w. fst (m w (audio_f32 f) SAMPLE_RATE) = Inr p))"

text \<open>
  The decision window after \<open>a\<close> speech decisions followed by \<open>b\<close> non-speech decisions:
  the last \<open>SPEECH_BUFFER_FRAMES\<close> of them.
\<close>

definition window :: "nat \<Rightarrow> nat \<Rightarrow> bool list" where
  "window a b = drop (a + b - SPEECH_BUFFER_FRAMES) (replicate a True @ replicate b False)"

text \<open>
  \<open>speaking st a b sb tr\<close>: the machine is Speaking, its decision window is
  \<open>window a b\<close>, it has accumulated \<open>sb\<close>, the trailing-silence ring holds \<open>tr\<close>, and
  no remainder is stored.
\<close>

definition speaking :: "VadState \<Rightarrow> nat \<Rightarrow> nat \<Rightarrow> bytes \<Rightarrow> bytes list \<Rightarrow> bool" where
  "speaking st a b sb tr \<longleftrightarrow>
     in_speech st \<and> vad_decision_buffer st = window a b \<and> speech_buffer st = sb \<and>
     trailing_silence_buffer st = tr \<and> partial_frame st = []"

subsection \<open>A concrete host, models and frames\<close>

text \<open>
  The float32 nearest to a real (ties to even): the real is scaled by powers of two
  until its integer part has 24 bits, and rounded there. Reals beyond the normal range
  of float32 run out of fuel and are left as they are.
\<close>

definition round_half_even :: "real \<Rightarrow> int" where
  "round_half_even x =
     (let n = \<lfloor>x\<rfloor>; d = x - real_of_int n
      in if d < 1/2 then n else if 1/2 < d then n + 1 else if even n then n else n + 1)"

fun f32_scaled :: "nat \<Rightarrow> real \<Rightarrow> real \<Rightarrow> real" where
  "f32_scaled 0 x u = x"
| "f32_scaled (Suc n) x u =
     (if x < 2 ^ 23 * u then f32_scaled n x (u / 2)
      else if 2 ^ 24 * u \<le> x then f32_scaled n x (2 * u)
      else real_of_int (round_half_even (x / u)) * u)"

definition float32 :: "real \<Rightarrow> real" where
  "float32 x =
     (if x = 0 then 0
      else if 0 < x then f32_scaled 200 x 1
      else - f32_scaled 200 (- x) 1)"

text \<open>
  The concrete host is NumPy 2 on the frames used below. Its world counts the calls made
  to the outside, and its clock advances with it; the clock's readings are whole
  seconds, whose float64 product with 1000 is exact. Its comparison rounds the Python
  float to float32. Its \<open>rms\<close> is the float32 nearest to the exact root mean square:
  in the frames below every sample is even and below 4096 in magnitude, or a power of
  two, so the float32 squares and all their float32 sums are exact, and only the square
  root rounds. \<open>tone lo hi\<close> is the frame whose samples all have the low byte \<open>lo\<close> and
  the high byte \<open>hi\<close>. \<open>hum\<close> and \<open>hum_rev\<close> hold the same 512 samples, 244 of value
  326, 266 of value 328 and 2 of value 462, in opposite orders; \<open>model_hum\<close> tells them
  apart by the first sample.
\<close>

definition rms_exact :: "real list \<Rightarrow> real" where
  "rms_exact xs = sqrt (sum_list (map (\<lambda>x. x * x) xs) / real (length xs))"

definition host0 :: "nat host" where
  "host0 = \<lparr>rms = (\<lambda>xs. float32 (rms_exact xs)),
            np_less = (\<lambda>r c. r < float32 c),
            float_mul = (\<lambda>a b. a * b),
            time_time = (\<lambda>w. (1700000000 + real w, Suc w))\<rparr>"

definition model0 :: "nat scorer" where
  "model0 w xs sr =
     (case xs of [] \<Rightarrow> (Inr 0.05, Suc w)
      | x # _ \<Rightarrow> (Inr (if 0.4 \<le> \<bar>x\<bar> then 0.95 else 0.05), Suc w))"

definition model_raising :: "nat scorer" where
  "model_raising w xs sr = (Inl (PyException ''RuntimeError''), Suc w)"

definition service0 :: "nat VadService" where
  "service0 = VadService_init (Some model0)"

definition service_raising :: "nat VadService" where
  "service_raising = VadService_init (Some model_raising)"

definition passthrough0 :: "nat VadService" where
  "passthrough0 = VadService_init None"

definition model_hum :: "nat scorer" where
  "model_hum w xs sr =
     (case xs of [] \<Rightarrow> (Inr 0.05, Suc w)
      | x # _ \<Rightarrow> (Inr (if x < 1/80 then 0.95 else 0.05), Suc w))"

definition service_hum :: "nat VadService" where
  "service_hum = VadService_init (Some model_hum)"

definition burst :: "nat \<Rightarrow> byte \<Rightarrow> byte \<Rightarrow> bytes" where
  "burst n lo hi = concat (replicate n [lo, hi])"

definition hum :: bytes where
  "hum = burst 244 0x46 0x01 @ burst 266 0x48 0x01 @ burst 2 0xCE 0x01"

definition hum_rev :: bytes where
  "hum_rev = burst 2 0xCE 0x01 @ burst 266 0x48 0x01 @ burst 244 0x46 0x01"

definition tone :: "byte \<Rightarrow> byte \<Rightarrow> bytes" where
  "tone lo hi = concat (replicate FRAME_SAMPLES [lo, hi])"

definition loud :: bytes where
  "loud = tone 0 0x40"

definition soft :: bytes where
  "soft = tone 0 0x10"

definition silence :: bytes where
  "silence = tone 0 0"

section \<open>Evaluated constants\<close>

lemma FRAME_BYTES_eq: "FRAME_BYTES = 1024"
  by (simp add: FRAME_BYTES_def FRAME_SAMPLES_def SAMPLE_RATE_def FRAME_DURATION_MS_def py_int_def)

lemma SPEECH_BUFFER_FRAMES_eq: "SPEECH_BUFFER_FRAMES = 15"
  by (simp add: SPEECH_BUFFER_FRAMES_def SPEECH_BUFFER_DURATION_MS_def FRAME_DURATION_MS_def)

lemma PRE_SPEECH_FRAMES_eq: "PRE_SPEECH_FRAMES = 12"
  by (simp add: PRE_SPEECH_FRAMES_def PRE_SPEECH_MS_def FRAME_DURATION_MS_def)

lemma TRAILING_SILENCE_FRAMES_eq: "TRAILING_SILENCE_FRAMES = 21"
  by (simp add: TRAILING_SILENCE_FRAMES_def TRAILING_SILENCE_MS_def FRAME_DURATION_MS_def)

lemma min_utterance_bytes_eq: "min_utterance_bytes = 38400"
  by (simp add: min_utterance_bytes_def MIN_UTTERANCE_SAMPLES_def SAMPLE_RATE_def
      MIN_UTTERANCE_DURATION_S_def py_int_def)

section \<open>One frame: what every step preserves\<close>

lemma returned_sel [simp]:
  "after (returned s w out) = s" "world (returned s w out) = w"
  "sunk (returned s w out) = out" "raised (returned s w out) = None"
  by (simp_all add: returned_def)

lemma reset_sel [simp]:
  "speech_buffer reset = []" "pre_speech_buffer reset = []" "vad_decision_buffer reset = []"
  "trailing_silence_buffer reset = []" "\<not> in_speech reset" "partial_frame reset = []"
  by (simp_all add: reset_def)

lemma state_machine_raised [simp]: "raised (state_machine H st f sp cb w) = None"
  by (simp add: state_machine_def Let_def split: prod.splits)

lemma state_machine_partial:
  "partial_frame st = [] \<Longrightarrow> partial_frame (after (state_machine H st f sp cb w)) = []"
  by (simp add: state_machine_def Let_def split: prod.splits)

lemma state_machine_sunk_length:
  "u \<in> set (sunk (state_machine H st f sp cb w)) \<Longrightarrow> min_utterance_bytes \<le> length u"
  by (simp add: state_machine_def Let_def split: prod.splits if_splits)

lemma state_machine_idle_empty:
  "(\<not> in_speech st \<longrightarrow> speech_buffer st = []) \<Longrightarrow>
   \<not> in_speech (after (state_machine H st f sp cb w)) \<Longrightarrow>
   speech_buffer (after (state_machine H st f sp cb w)) = []"
  by (auto simp: state_machine_def Let_def split: prod.splits if_splits)

lemma process_frame_cases:
  "(length f \<noteq> FRAME_BYTES \<and> process_frame H svc st f cb w = returned st w []) \<or>
   (\<exists>e w'. length f = FRAME_BYTES \<and> speech_prob H svc f w = (Inl e, w') \<and>
        process_frame H svc st f cb w = \<lparr>after = st, world = w', sunk = [], raised = Some e\<rparr>) \<or>
   (\<exists>p w'. length f = FRAME_BYTES \<and> speech_prob H svc f w = (Inr p, w') \<and>
        process_frame H svc st f cb w = state_machine H st f (is_speech p) cb w')"
  by (auto simp: process_frame_def split: prod.splits sum.splits)

lemma process_frame_partial:
  "partial_frame st = [] \<Longrightarrow> partial_frame (after (process_frame H svc st f cb w)) = []"
  using process_frame_cases [of f H svc st cb w]
  by (auto simp: state_machine_partial)

lemma process_frame_sunk_length:
  "u \<in> set (sunk (process_frame H svc st f cb w)) \<Longrightarrow> min_utterance_bytes \<le> length u"
  using process_frame_cases [of f H svc st cb w]
  by (auto dest: state_machine_sunk_length)

lemma process_frame_idle_empty:
  "(\<not> in_speech st \<longrightarrow> speech_buffer st = []) \<Longrightarrow>
   \<not> in_speech (after (process_frame H svc st f cb w)) \<Longrightarrow>
   speech_buffer (after (process_frame H svc st f cb w)) = []"
  using process_frame_cases [of f H svc st cb w]
  by (auto simp: state_machine_idle_empty)

section \<open>The splitting loop\<close>

lemma frames_of_short: "length xs < FRAME_BYTES \<Longrightarrow> frames_of xs = []"
  by (subst frames_of.simps) simp

lemma remainder_of_short: "length xs < FRAME_BYTES \<Longrightarrow> remainder_of xs = xs"
  by (subst remainder_of.simps) simp

lemma frames_of_long:
  "FRAME_BYTES \<le> length xs \<Longrightarrow>
   frames_of xs = take FRAME_BYTES xs # frames_of (drop FRAME_BYTES xs)"
  by (subst frames_of.simps) simp

lemma remainder_of_long:
  "FRAME_BYTES \<le> length xs \<Longrightarrow> remainder_of xs = remainder_of (drop FRAME_BYTES xs)"
  by (subst remainder_of.simps) simp

lemma frames_of_length: "f \<in> set (frames_of xs) \<Longrightarrow> length f = FRAME_BYTES"
proof (induction xs rule: frames_of.induct)
  case (1 xs)
  show ?case
  proof (cases "FRAME_BYTES \<le> length xs")
    case True
    then have "frames_of xs = take FRAME_BYTES xs # frames_of (drop FRAME_BYTES xs)"
      by (rule frames_of_long)
    with 1 True show ?thesis by auto
  next
    case False
    with 1(2) show ?thesis by (simp add: frames_of_short)
  qed
qed

lemma remainder_of_length: "length (remainder_of xs) < FRAME_BYTES"
proof (induction xs rule: remainder_of.induct)
  case (1 xs)
  show ?case
  proof (cases "FRAME_BYTES \<le> length xs")
    case True
    then have "remainder_of xs = remainder_of (drop FRAME_BYTES xs)"
      by (rule remainder_of_long)
    with 1 True show ?thesis by simp
  next
    case False
    then show ?thesis by (simp add: remainder_of_short)
  qed
qed

lemma frames_of_concat: "concat (frames_of xs) @ remainder_of xs = xs"
proof (induction xs rule: frames_of.induct)
  case (1 xs)
  show ?case
  proof (cases "FRAME_BYTES \<le> length xs")
    case True
    then have "frames_of xs = take FRAME_BYTES xs # frames_of (drop FRAME_BYTES xs)"
      and "remainder_of xs = remainder_of (drop FRAME_BYTES xs)"
      by (rule frames_of_long, rule remainder_of_long)
    with 1 True show ?thesis by simp
  next
    case False
    then show ?thesis by (simp add: frames_of_short remainder_of_short)
  qed
qed

lemma frames_of_append:
  "frames_of (xs @ ys) = frames_of xs @ frames_of (remainder_of xs @ ys)"
proof (induction xs rule: frames_of.induct)
  case (1 xs)
  show ?case
  proof (cases "FRAME_BYTES \<le> length xs")
    case True
    then have "frames_of (xs @ ys) = take FRAME_BYTES xs # frames_of (drop FRAME_BYTES xs @ ys)"
      by (subst frames_of.simps) simp
    moreover have "frames_of xs = take FRAME_BYTES xs # frames_of (drop FRAME_BYTES xs)"
      and "remainder_of xs = remainder_of (drop FRAME_BYTES xs)"
      using True by (rule frames_of_long, rule remainder_of_long)
    ultimately show ?thesis using 1 True by simp
  next
    case False
    then show ?thesis by (simp add: frames_of_short remainder_of_short)
  qed
qed

lemma remainder_of_append:
  "remainder_of (xs @ ys) = remainder_of (remainder_of xs @ ys)"
proof (induction xs rule: remainder_of.induct)
  case (1 xs)
  show ?case
  proof (cases "FRAME_BYTES \<le> length xs")
    case True
    then have "remainder_of (xs @ ys) = remainder_of (drop FRAME_BYTES xs @ ys)"
      by (subst remainder_of.simps) simp
    moreover have "remainder_of xs = remainder_of (drop FRAME_BYTES xs)"
      using True by (rule remainder_of_long)
    ultimately show ?thesis using 1 True by simp
  next
    case False
    then show ?thesis by (simp add: remainder_of_short)
  qed
qed

lemma run_frames_append:
  "run_frames H svc st (fs @ gs) cb w =
     (let r1 = run_frames H svc st fs cb w in
      if raised r1 \<noteq> None then r1
      else (let r2 = run_frames H svc (after r1) gs cb (world r1)
            in r2\<lparr>sunk := sunk r1 @ sunk r2\<rparr>))"
proof (induction fs arbitrary: st w)
  case Nil
  show ?case by simp
next
  case (Cons f fs)
  show ?case by (auto simp: Cons.IH Let_def)
qed

lemma frames_loop_run_frames:
  "frames_loop H svc st audio cb w =
     store_remainder (run_frames H svc st (frames_of audio) cb w) (remainder_of audio)"
proof (induction H svc st audio cb w rule: frames_loop.induct)
  case (1 H svc state audio cb w)
  show ?case
  proof (cases "FRAME_BYTES \<le> length audio")
    case False
    then show ?thesis
      by (subst frames_loop.simps)
         (simp add: frames_of_short remainder_of_short store_remainder_def returned_def)
  next
    case True
    then have ne: "audio \<noteq> []" by (auto simp: FRAME_BYTES_eq)
    let ?r1 = "process_frame H svc state (take FRAME_BYTES audio) cb w"
    show ?thesis
    proof (cases "raised ?r1 = None")
      case False
      with True ne show ?thesis
        by (subst frames_loop.simps, subst frames_of.simps)
           (simp add: store_remainder_def Let_def)
    next
      case rn: True
      have ih: "frames_loop H svc (after ?r1) (drop FRAME_BYTES audio) cb (world ?r1) =
                store_remainder (run_frames H svc (after ?r1) (frames_of (drop FRAME_BYTES audio)) cb (world ?r1))
                  (remainder_of (drop FRAME_BYTES audio))"
        using 1 [OF ne True refl] rn by simp
      show ?thesis
        using True ne rn
        by (subst frames_loop.simps, subst frames_of.simps, subst remainder_of.simps)
           (simp add: ih store_remainder_def Let_def)
    qed
  qed
qed

lemma speech_prob_connections [simp]:
  "speech_prob H (svc\<lparr>connections := c\<rparr>) f w = speech_prob H svc f w"
  by (simp add: speech_prob_def)

lemma process_frame_connections [simp]:
  "process_frame H (svc\<lparr>connections := c\<rparr>) st f cb w = process_frame H svc st f cb w"
  by (simp add: process_frame_def)

lemma run_frames_connections [simp]:
  "run_frames H (svc\<lparr>connections := c\<rparr>) st fs cb w = run_frames H svc st fs cb w"
  by (induction fs arbitrary: st w) (simp_all add: Let_def)

lemma run_frames_partial:
  "partial_frame st = [] \<Longrightarrow> partial_frame (after (run_frames H svc st fs cb w)) = []"
proof (induction fs arbitrary: st w)
  case Nil
  then show ?case by simp
next
  case (Cons f fs)
  then show ?case by (simp add: Let_def process_frame_partial)
qed

lemma run_frames_sunk_length:
  "u \<in> set (sunk (run_frames H svc st fs cb w)) \<Longrightarrow> min_utterance_bytes \<le> length u"
proof (induction fs arbitrary: st w)
  case Nil
  then show ?case by simp
next
  case (Cons f fs)
  then show ?case
    by (auto simp: Let_def split: if_splits dest: process_frame_sunk_length)
qed

lemma run_frames_idle_empty:
  "(\<not> in_speech st \<longrightarrow> speech_buffer st = []) \<Longrightarrow>
   \<not> in_speech (after (run_frames H svc st fs cb w)) \<Longrightarrow>
   speech_buffer (after (run_frames H svc st fs cb w)) = []"
proof (induction fs arbitrary: st w)
  case Nil
  then show ?case by simp
next
  case (Cons f fs)
  let ?r1 = "process_frame H svc st f cb w"
  have step: "\<not> in_speech (after ?r1) \<longrightarrow> speech_buffer (after ?r1) = []"
    using Cons.prems(1) by (simp add: process_frame_idle_empty)
  show ?case
  proof (cases "raised ?r1 = None")
    case True
    with Cons.prems(2) Cons.IH [OF step] show ?thesis by (simp add: Let_def)
  next
    case False
    with Cons.prems(2) step show ?thesis by (auto simp: Let_def)
  qed
qed

text \<open>The chunk-level call in terms of the frames of the remainder followed by the chunk.\<close>

lemma process_audio_chunk_frames:
  assumes "vad_model_loaded svc"
  shows "process_audio_chunk H svc cid audio cb w =
     (let state = fst (get_state svc cid);
          r = run_frames H svc (state\<lparr>partial_frame := []\<rparr>)
                (frames_of (partial_frame state @ audio)) cb w;
          final = (if raised r = None
                   then (after r)\<lparr>partial_frame := remainder_of (partial_frame state @ audio)\<rparr>
                   else after r)
      in \<lparr>after = svc\<lparr>connections := (connections svc)(cid \<mapsto> final)\<rparr>,
          world = world r, sunk = sunk r, raised = raised r\<rparr>)"
proof -
  obtain state svc1 where gs: "get_state svc cid = (state, svc1)" by (cases "get_state svc cid")
  have svc1: "svc1\<lparr>connections := (connections svc1)(cid \<mapsto> x)\<rparr>
              = svc\<lparr>connections := (connections svc)(cid \<mapsto> x)\<rparr>" for x
    using gs by (auto simp: get_state_def split: option.splits)
  have st1: "(if partial_frame state \<noteq> [] then state\<lparr>partial_frame := []\<rparr> else state)
             = state\<lparr>partial_frame := []\<rparr>"
    by simp
  have au: "(if partial_frame state \<noteq> [] then partial_frame state @ audio else audio)
            = partial_frame state @ audio"
    by simp
  let ?r = "run_frames H svc (state\<lparr>partial_frame := []\<rparr>) (frames_of (partial_frame state @ audio)) cb w"
  have pf: "partial_frame (after ?r) = []"
    by (rule run_frames_partial) simp
  show ?thesis
    using assms
    unfolding process_audio_chunk_def gs Let_def prod.case st1 au frames_loop_run_frames
    by (simp add: store_remainder_def svc1 pf)
qed

section \<open>Reachable services\<close>

lemma process_audio_chunk_connections:
  "connections (after (process_audio_chunk H svc cid audio cb w)) cid' = Some st' \<Longrightarrow>
   cid' \<noteq> cid \<Longrightarrow> connections svc cid' = Some st'"
  by (auto simp: process_audio_chunk_def get_state_def Let_def split: if_splits option.splits prod.splits)

lemma get_state_fst:
  "fst (get_state svc cid) = (case connections svc cid of None \<Rightarrow> reset | Some st \<Rightarrow> st)"
  by (simp add: get_state_def split: option.splits)

lemma state_ok_reset: "state_ok reset"
  by (simp add: state_ok_def FRAME_BYTES_eq)

lemma process_audio_chunk_state_ok:
  assumes inv: "\<And>c s. connections svc c = Some s \<Longrightarrow> state_ok s"
    and res: "connections (after (process_audio_chunk H svc cid audio cb w)) c = Some s"
  shows "state_ok s"
proof (cases "vad_model_loaded svc")
  case False
  with res inv show ?thesis by (simp add: process_audio_chunk_def)
next
  case True
  show ?thesis
  proof (cases "c = cid")
    case False
    with res have "connections svc c = Some s" by (rule process_audio_chunk_connections)
    then show ?thesis by (rule inv)
  next
    case same: True
    define state where "state = fst (get_state svc cid)"
    have ok0: "state_ok state"
      unfolding state_def get_state_fst using inv by (auto split: option.splits simp: state_ok_reset)
    let ?r = "run_frames H svc (state\<lparr>partial_frame := []\<rparr>)
                (frames_of (partial_frame state @ audio)) cb w"
    have idle: "\<not> in_speech (after ?r) \<longrightarrow> speech_buffer (after ?r) = []"
      using ok0 by (auto intro!: run_frames_idle_empty simp: state_ok_def)
    have pf: "partial_frame (after ?r) = []" by (rule run_frames_partial) simp
    have "s = (if raised ?r = None
               then (after ?r)\<lparr>partial_frame := remainder_of (partial_frame state @ audio)\<rparr>
               else after ?r)"
      using res same by (auto simp: process_audio_chunk_frames [OF True] Let_def state_def)
    then show ?thesis
      using idle pf remainder_of_length [of "partial_frame state @ audio"]
      by (auto simp: state_ok_def FRAME_BYTES_eq)
  qed
qed

lemma reachable_state_ok:
  "reachable H svc \<Longrightarrow> connections svc c = Some s \<Longrightarrow> state_ok s"
proof (induction arbitrary: c s rule: reachable.induct)
  case (constructed loaded)
  then show ?case by (simp add: VadService_init_def)
next
  case (chunk svc connection_id audio_bytes cb w)
  show ?case
    by (rule process_audio_chunk_state_ok [OF chunk.IH chunk.prems]) 
next
  case (cleanup svc connection_id)
  then show ?case
    by (auto simp: cleanup_connection_def split: if_splits)
qed

section \<open>Rounding to float32\<close>

lemma round_half_even_unique:
  assumes "real_of_int z - 1/2 < x" and "x < real_of_int z + 1/2"
  shows "round_half_even x = z"
proof (cases "real_of_int z \<le> x")
  case True
  then have "\<lfloor>x\<rfloor> = z" using assms by (intro floor_unique) auto
  then show ?thesis using assms by (simp add: round_half_even_def Let_def)
next
  case False
  then have "\<lfloor>x\<rfloor> = z - 1" using assms by (intro floor_unique) auto
  then show ?thesis using assms False by (simp add: round_half_even_def Let_def)
qed

lemma f32_scaled_down:
  "0 < u \<Longrightarrow> 2 ^ 23 * u \<le> x * 2 ^ k \<Longrightarrow> x * 2 ^ k < 2 ^ 24 * u \<Longrightarrow> k < n \<Longrightarrow>
   f32_scaled n x u = real_of_int (round_half_even (x * 2 ^ k / u)) * (u / 2 ^ k)"
proof (induction k arbitrary: n u)
  case 0
  then obtain m where n: "n = Suc m" by (cases n) auto
  from 0 show ?case by (simp add: n)
next
  case (Suc k)
  then obtain m where n: "n = Suc m" and km: "k < m" by (cases n) auto
  have xpos: "0 < x"
  proof (rule ccontr)
    assume "\<not> 0 < x"
    then have "x * 2 ^ Suc k \<le> 0" by (simp add: mult_le_0_iff)
    with Suc.prems(1,2) show False
      by (smt (verit) mult_pos_pos zero_less_numeral zero_less_power)
  qed
  have "x * 2 \<le> x * 2 ^ Suc k"
    using xpos by (simp add: self_le_power)
  with Suc.prems(3) have small: "x < 2 ^ 23 * u" by simp
  have u2: "0 < u / 2" using Suc.prems(1) by simp
  have lo: "2 ^ 23 * (u / 2) \<le> x * 2 ^ k" using Suc.prems(2) by simp
  have hi: "x * 2 ^ k < 2 ^ 24 * (u / 2)" using Suc.prems(3) by simp
  have "f32_scaled n x u = f32_scaled m x (u / 2)" using small by (simp add: n)
  also have "\<dots> = real_of_int (round_half_even (x * 2 ^ k / (u / 2))) * (u / 2 / 2 ^ k)"
    by (rule Suc.IH [OF u2 lo hi km])
  also have "\<dots> = real_of_int (round_half_even (x * 2 ^ Suc k / u)) * (u / 2 ^ Suc k)"
    by (simp add: field_simps)
  finally show ?case .
qed

lemma float32_eq:
  assumes "2 ^ 23 \<le> x * 2 ^ k" and "x * 2 ^ k < 2 ^ 24"
    and "round_half_even (x * 2 ^ k) = z" and "k < 200"
  shows "float32 x = real_of_int z / 2 ^ k"
proof -
  have "0 < x * 2 ^ k" using assms(1) by (smt (verit) zero_less_power)
  then have xpos: "0 < x" by (simp add: zero_less_mult_iff)
  have "f32_scaled 200 x 1 = real_of_int (round_half_even (x * 2 ^ k / 1)) * (1 / 2 ^ k)"
    by (rule f32_scaled_down) (use assms in simp_all)
  with xpos assms(3) show ?thesis by (simp add: float32_def)
qed

lemma float32_gate: "float32 (1/100) = 10737418 / 2 ^ 30"
proof -
  have "round_half_even (1/100 * 2 ^ 30) = 10737418"
    by (rule round_half_even_unique) simp_all
  from float32_eq [OF _ _ this] show ?thesis by simp
qed

lemma float32_half: "float32 (1/2) = 1/2"
proof -
  have "round_half_even (1/2 * 2 ^ 24) = 8388608"
    by (rule round_half_even_unique) simp_all
  from float32_eq [OF _ _ this] show ?thesis by simp
qed

lemma float32_eighth: "float32 (1/8) = 1/8"
proof -
  have "round_half_even (1/8 * 2 ^ 26) = 8388608"
    by (rule round_half_even_unique) simp_all
  from float32_eq [OF _ _ this] show ?thesis by simp
qed

lemma float32_zero: "float32 0 = 0"
  by (simp add: float32_def)

lemma float32_hum: "float32 (sqrt (54975576 / 2 ^ 39)) = 10737418 / 2 ^ 30"
proof -
  let ?q = "54975576 / 2 ^ 39 :: real"
  have lo: "21474835 / 2 ^ 31 < sqrt ?q"
    by (rule real_less_rsqrt) (simp add: power2_eq_square)
  have hi: "sqrt ?q < 21474837 / 2 ^ 31"
    by (rule real_less_lsqrt) (simp_all add: power2_eq_square)
  have r: "round_half_even (sqrt ?q * 2 ^ 30) = 10737418"
    by (rule round_half_even_unique) (use lo hi in \<open>simp_all add: field_simps\<close>)
  have a: "2 ^ 23 \<le> sqrt ?q * 2 ^ 30" using lo by (simp add: field_simps)
  have b: "sqrt ?q * 2 ^ 30 < 2 ^ 24" using hi by (simp add: field_simps)
  from float32_eq [OF a b r] show ?thesis by simp
qed

lemma sqrt_hum_below: "sqrt (54975576 / 2 ^ 39) < (1/100 :: real)"
  by (rule real_less_lsqrt) (simp_all add: power2_eq_square)

section \<open>The concrete host and frames\<close>

lemma FRAME_SAMPLES_eq: "FRAME_SAMPLES = 512"
  by (simp add: FRAME_SAMPLES_def SAMPLE_RATE_def FRAME_DURATION_MS_def py_int_def)

lemma tone_length: "length (tone lo hi) = FRAME_BYTES"
  by (simp add: tone_def FRAME_BYTES_def length_concat sum_list_replicate)

lemma frombuffer_int16_tone:
  "frombuffer_int16 (concat (replicate n [lo, hi])) = replicate n (word_cat hi lo)"
  by (induction n) simp_all

lemma audio_f32_tone:
  "audio_f32 (tone lo hi) = replicate 512 (real_of_int (sint (word_cat hi lo :: 16 word)) / 32768)"
  by (simp add: audio_f32_def tone_def frombuffer_int16_tone FRAME_SAMPLES_eq)

lemma rms_exact_replicate: "0 < n \<Longrightarrow> rms_exact (replicate n c) = \<bar>c\<bar>"
  by (simp add: rms_exact_def sum_list_replicate map_replicate)

lemma sint_loud: "sint (word_cat (0x40::8 word) (0::8 word) :: 16 word) = 16384" by code_simp
lemma sint_soft: "sint (word_cat (0x10::8 word) (0::8 word) :: 16 word) = 4096" by code_simp
lemma sint_silence: "sint (word_cat (0::8 word) (0::8 word) :: 16 word) = 0" by code_simp

lemma audio_loud: "audio_f32 loud = replicate 512 (1/2)"
  by (simp add: loud_def audio_f32_tone sint_loud)
lemma audio_soft: "audio_f32 soft = replicate 512 (1/8)"
  by (simp add: soft_def audio_f32_tone sint_soft)
lemma audio_silence: "audio_f32 silence = replicate 512 0"
  by (simp add: silence_def audio_f32_tone sint_silence)

lemma replicate_512_Cons: "replicate 512 c = c # replicate 511 c"
  by (simp add: replicate_Suc [symmetric] del: replicate_Suc)

lemma rms_host0: "rms host0 xs = float32 (rms_exact xs)"
  by (simp add: host0_def)

lemma gated_host0: "gated host0 f \<longleftrightarrow> rms host0 (audio_f32 f) < 10737418 / 2 ^ 30"
  by (simp add: gated_def host0_def RMS_NOISE_GATE_def float32_gate)

lemma rms_loud: "rms host0 (audio_f32 loud) = 1/2"
  by (simp add: rms_host0 audio_loud rms_exact_replicate float32_half)

lemma rms_soft: "rms host0 (audio_f32 soft) = 1/8"
  by (simp add: rms_host0 audio_soft rms_exact_replicate float32_eighth)

lemma rms_silence: "rms host0 (audio_f32 silence) = 0"
  by (simp add: rms_host0 audio_silence rms_exact_replicate float32_zero)

lemma gated_silence: "gated host0 silence"
  by (simp add: gated_host0 rms_silence)

lemma audio_loud_gate: "\<not> gated host0 loud"
  by (simp add: gated_host0 rms_loud)

lemma audio_soft_gate: "\<not> gated host0 soft"
  by (simp add: gated_host0 rms_soft)

lemma scores_loud: "model svc = Some model0 \<Longrightarrow> scores host0 svc loud 0.95"
  using audio_loud_gate
  by (simp add: scores_def audio_loud model0_def replicate_512_Cons)
     (simp add: loud_def tone_length)

lemma scores_soft: "model svc = Some model0 \<Longrightarrow> scores host0 svc soft 0.05"
  using audio_soft_gate
  by (simp add: scores_def audio_soft model0_def replicate_512_Cons)
     (simp add: soft_def tone_length)

lemma burst_length: "length (burst n lo hi) = 2 * n"
  by (simp add: burst_def length_concat sum_list_replicate)

lemma frombuffer_int16_burst:
  "frombuffer_int16 (burst n lo hi @ rest) = replicate n (word_cat hi lo) @ frombuffer_int16 rest"
  by (induction n) (simp_all add: burst_def)

lemma sint_326: "sint (word_cat (0x01::8 word) (0x46::8 word) :: 16 word) = 326" by code_simp
lemma sint_328: "sint (word_cat (0x01::8 word) (0x48::8 word) :: 16 word) = 328" by code_simp
lemma sint_462: "sint (word_cat (0x01::8 word) (0xCE::8 word) :: 16 word) = 462" by code_simp

lemma hum_length: "length hum = FRAME_BYTES" and hum_rev_length: "length hum_rev = FRAME_BYTES"
  by (simp_all add: hum_def hum_rev_def burst_length FRAME_BYTES_eq)

lemma audio_f32_burst:
  "audio_f32 (burst n lo hi @ rest) =
     replicate n (real_of_int (sint (word_cat hi lo :: 16 word)) / 32768) @ audio_f32 rest"
  by (simp add: audio_f32_def frombuffer_int16_burst)

lemma audio_f32_burst_last:
  "audio_f32 (burst n lo hi) = replicate n (real_of_int (sint (word_cat hi lo :: 16 word)) / 32768)"
  using audio_f32_burst [of n lo hi "[]"] by (simp add: audio_f32_def)

lemma audio_hum:
  "audio_f32 hum = replicate 244 (326 / 32768) @ replicate 266 (328 / 32768) @ replicate 2 (462 / 32768)"
  by (simp add: hum_def audio_f32_burst audio_f32_burst_last sint_326 sint_328 sint_462)

lemma audio_hum_rev:
  "audio_f32 hum_rev = replicate 2 (462 / 32768) @ replicate 266 (328 / 32768) @ replicate 244 (326 / 32768)"
  by (simp add: hum_rev_def audio_f32_burst audio_f32_burst_last sint_326 sint_328 sint_462)

lemma rms_exact_hum: "rms_exact (audio_f32 hum) = sqrt (54975576 / 2 ^ 39)"
  by (simp add: audio_hum rms_exact_def sum_list_replicate)

lemma rms_exact_hum_rev: "rms_exact (audio_f32 hum_rev) = sqrt (54975576 / 2 ^ 39)"
  by (simp add: audio_hum_rev rms_exact_def sum_list_replicate)

lemma rms_hum: "rms host0 (audio_f32 hum) = 10737418 / 2 ^ 30"
  by (simp only: rms_host0 rms_exact_hum float32_hum)

lemma rms_hum_rev: "rms host0 (audio_f32 hum_rev) = 10737418 / 2 ^ 30"
  by (simp only: rms_host0 rms_exact_hum_rev float32_hum)

lemma hum_not_gated: "\<not> gated host0 hum" and hum_rev_not_gated: "\<not> gated host0 hum_rev"
  by (simp_all add: gated_host0 rms_hum rms_hum_rev)

lemma replicate_244_Cons: "replicate 244 c = c # replicate 243 c"
  by (simp add: replicate_Suc [symmetric] del: replicate_Suc)

lemma service_hum_sel [simp]:
  "vad_model_loaded service_hum" "model service_hum = Some model_hum"
  "connections service_hum = Map.empty"
  by (simp_all add: service_hum_def VadService_init_def)

lemma scores_hum: "scores host0 service_hum hum 0.95"
  using hum_not_gated
  by (simp add: scores_def hum_length audio_hum model_hum_def replicate_244_Cons)

lemma replicate_2_Cons: "replicate 2 c = c # replicate 1 c"
  by (simp add: numeral_2_eq_2)

lemma scores_hum_rev: "scores host0 service_hum hum_rev 0.05"
  using hum_rev_not_gated
  by (simp add: scores_def hum_rev_length audio_hum_rev model_hum_def replicate_2_Cons)

section \<open>The decision window\<close>

lemma deque_append_last:
  "0 < m \<Longrightarrow> deque_append m (drop (length xs - m) xs) x = drop (length (xs @ [x]) - m) (xs @ [x])"
  by (auto simp: deque_append_def drop_Suc [symmetric] tl_drop Suc_diff_le simp del: drop_Suc)

lemma count_list_replicate_same [simp]: "count_list (replicate n x) x = n"
  by (induction n) simp_all

lemma count_list_replicate_other [simp]: "x \<noteq> y \<Longrightarrow> count_list (replicate n x) y = 0"
  by (induction n) simp_all

lemma window_push_False:
  "deque_append SPEECH_BUFFER_FRAMES (window a b) False = window a (Suc b)"
proof -
  have "deque_append 15 (drop (length (replicate a True @ replicate b False) - 15)
          (replicate a True @ replicate b False)) False
        = drop (length ((replicate a True @ replicate b False) @ [False]) - 15)
            ((replicate a True @ replicate b False) @ [False])"
    by (rule deque_append_last) simp
  moreover have "(replicate a True @ replicate b False) @ [False]
                 = replicate a True @ replicate (Suc b) False"
    by (simp add: replicate_append_same)
  ultimately show ?thesis
    by (simp add: window_def SPEECH_BUFFER_FRAMES_eq del: replicate_Suc drop_append)
qed

lemma window_push_True:
  "deque_append SPEECH_BUFFER_FRAMES (window a 0) True = window (Suc a) 0"
proof -
  have "deque_append 15 (drop (length (replicate a True) - 15) (replicate a True)) True
        = drop (length (replicate a True @ [True]) - 15) (replicate a True @ [True])"
    by (rule deque_append_last) simp
  moreover have "replicate a True @ [True] = replicate (Suc a) True"
    by (simp add: replicate_append_same)
  ultimately show ?thesis
    by (simp add: window_def SPEECH_BUFFER_FRAMES_eq del: replicate_Suc)
qed

lemma window_empty: "window 0 0 = []"
  by (simp add: window_def)

lemma count_window: "count_list (window a b) True = a - (a + b - 15)"
  by (simp add: window_def SPEECH_BUFFER_FRAMES_eq)

lemma length_window: "length (window a b) = min (a + b) 15"
  by (simp add: window_def SPEECH_BUFFER_FRAMES_eq)

lemma speech_ratio_window_speech: "0 < a \<Longrightarrow> speech_ratio (window a 0) = 1"
  by (simp add: speech_ratio_def count_window length_window min_def)

lemma speech_ratio_window_14:
  "0 < j \<Longrightarrow> speech_ratio (window 14 j) = real (15 - j) / 15"
proof -
  assume "0 < j"
  then have "count_list (window 14 j) True = 15 - j" and "length (window 14 j) = 15"
    by (simp_all add: count_window length_window)
  then show ?thesis by (simp add: speech_ratio_def)
qed

lemma trigger_guard:
  assumes "SPEECH_TRIGGER_RATIO \<le> speech_ratio dec"
  shows "py_int (0.6 * real (length dec)) \<le> int (count_list dec True)"
proof -
  have n: "length dec \<noteq> 0"
    using assms by (auto simp: speech_ratio_def SPEECH_TRIGGER_RATIO_def)
  then have "0.9 * real (length dec) \<le> real (count_list dec True)"
    using assms by (simp add: speech_ratio_def SPEECH_TRIGGER_RATIO_def pos_le_divide_eq)
  then have "0.6 * real (length dec) \<le> real (count_list dec True)"
    by simp
  then have "\<lfloor>0.6 * real (length dec)\<rfloor> \<le> int (count_list dec True)"
    by (simp add: floor_le_iff)
  then show ?thesis by (simp add: py_int_def)
qed

section \<open>The state machine, case by case\<close>

lemma state_machine_trigger:
  assumes "\<not> in_speech st"
    and "SPEECH_TRIGGER_RATIO \<le> speech_ratio (deque_append SPEECH_BUFFER_FRAMES (vad_decision_buffer st) d)"
  shows "in_speech (after (state_machine H st f d cb w))"
    and "vad_decision_buffer (after (state_machine H st f d cb w))
           = deque_append SPEECH_BUFFER_FRAMES (vad_decision_buffer st) d"
    and "pre_speech_buffer (after (state_machine H st f d cb w))
           = deque_append PRE_SPEECH_FRAMES (pre_speech_buffer st) f"
    and "speech_buffer (after (state_machine H st f d cb w))
           = speech_buffer st @ concat (deque_append PRE_SPEECH_FRAMES (pre_speech_buffer st) f) @ f"
    and "trailing_silence_buffer (after (state_machine H st f d cb w)) = []"
    and "partial_frame (after (state_machine H st f d cb w)) = partial_frame st"
    and "sunk (state_machine H st f d cb w) = []"
  using assms trigger_guard [OF assms(2)]
  by (simp_all add: state_machine_def Let_def split: prod.splits)

lemma state_machine_idle_stay:
  assumes "\<not> in_speech st"
    and "\<not> SPEECH_TRIGGER_RATIO \<le> speech_ratio (deque_append SPEECH_BUFFER_FRAMES (vad_decision_buffer st) d)"
  shows "state_machine H st f d cb w =
           returned (st\<lparr>vad_decision_buffer := deque_append SPEECH_BUFFER_FRAMES (vad_decision_buffer st) d,
                        pre_speech_buffer := deque_append PRE_SPEECH_FRAMES (pre_speech_buffer st) f\<rparr>) w []"
  using assms by (simp add: state_machine_def Let_def)

lemma state_machine_hold:
  assumes "in_speech st"
    and "\<not> speech_ratio (deque_append SPEECH_BUFFER_FRAMES (vad_decision_buffer st) d) < SPEECH_RELEASE_RATIO"
  shows "state_machine H st f d cb w =
           returned (st\<lparr>vad_decision_buffer := deque_append SPEECH_BUFFER_FRAMES (vad_decision_buffer st) d,
                        pre_speech_buffer := deque_append PRE_SPEECH_FRAMES (pre_speech_buffer st) f,
                        speech_buffer := speech_buffer st @ f,
                        trailing_silence_buffer := []\<rparr>) w []"
  using assms by (simp add: state_machine_def Let_def)

lemma state_machine_countdown:
  assumes "in_speech st"
    and "speech_ratio (deque_append SPEECH_BUFFER_FRAMES (vad_decision_buffer st) d) < SPEECH_RELEASE_RATIO"
    and "length (deque_append TRAILING_SILENCE_FRAMES (trailing_silence_buffer st) f) \<noteq> TRAILING_SILENCE_FRAMES"
  shows "state_machine H st f d cb w =
           returned (st\<lparr>vad_decision_buffer := deque_append SPEECH_BUFFER_FRAMES (vad_decision_buffer st) d,
                        pre_speech_buffer := deque_append PRE_SPEECH_FRAMES (pre_speech_buffer st) f,
                        speech_buffer := speech_buffer st @ f,
                        trailing_silence_buffer :=
                          deque_append TRAILING_SILENCE_FRAMES (trailing_silence_buffer st) f\<rparr>) w []"
  using assms by (simp add: state_machine_def Let_def)

lemma state_machine_finalize:
  assumes "in_speech st"
    and "speech_ratio (deque_append SPEECH_BUFFER_FRAMES (vad_decision_buffer st) d) < SPEECH_RELEASE_RATIO"
    and "length (deque_append TRAILING_SILENCE_FRAMES (trailing_silence_buffer st) f) = TRAILING_SILENCE_FRAMES"
  shows "state_machine H st f d cb w =
           returned reset w
             (if min_utterance_bytes \<le> length (speech_buffer st @ f) \<and> cb
              then [speech_buffer st @ f] else [])"
  using assms by (simp add: state_machine_def Let_def)

lemma process_frame_gated:
  "length f = FRAME_BYTES \<Longrightarrow> gated H f \<Longrightarrow>
   process_frame H svc st f cb w = state_machine H st f False cb w"
  by (simp add: process_frame_def speech_prob_def gated_def is_speech_def STRONG_SPEECH_PROB_def
      WEAK_SPEECH_PROB_def)

lemma process_frame_scores:
  assumes "scores H svc f p"
  shows "\<exists>w'. process_frame H svc st f cb w = state_machine H st f (is_speech p) cb w'"
proof -
  from assms obtain m where m: "model svc = Some m"
    and p: "\<And>w. fst (m w (audio_f32 f) SAMPLE_RATE) = Inr p"
    and len: "length f = FRAME_BYTES" and loud: "\<not> gated H f"
    by (auto simp: scores_def)
  obtain x w' where mw: "m w (audio_f32 f) SAMPLE_RATE = (x, w')"
    by (cases "m w (audio_f32 f) SAMPLE_RATE")
  with p [of w] have "x = Inr p" by simp
  with mw m len loud show ?thesis
    by (auto simp: process_frame_def speech_prob_def gated_def)
qed

lemma deque_append_short:
  "length d < m \<Longrightarrow> deque_append m d x = d @ [x]"
  by (simp add: deque_append_def)

section \<open>Steps of a scored frame\<close>

lemma is_speech_095: "is_speech 0.95" and is_speech_005: "\<not> is_speech 0.05"
  by (simp_all add: is_speech_def STRONG_SPEECH_PROB_def WEAK_SPEECH_PROB_def)

lemma process_frame_speech:
  assumes "scores H svc f 0.95"
  obtains w' where "process_frame H svc st f cb w = state_machine H st f True cb w'"
proof -
  from process_frame_scores [OF assms, of st cb w] obtain w'
    where "process_frame H svc st f cb w = state_machine H st f (is_speech 0.95) cb w'"
    by blast
  with is_speech_095 have "process_frame H svc st f cb w = state_machine H st f True cb w'"
    by simp
  then show thesis by (rule that)
qed

lemma process_frame_nonspeech:
  assumes "scores H svc f 0.05"
  obtains w' where "process_frame H svc st f cb w = state_machine H st f False cb w'"
proof -
  from process_frame_scores [OF assms, of st cb w] obtain w'
    where "process_frame H svc st f cb w = state_machine H st f (is_speech 0.05) cb w'"
    by blast
  with is_speech_005 have "process_frame H svc st f cb w = state_machine H st f False cb w'"
    by simp
  then show thesis by (rule that)
qed

lemma onset_step:
  assumes "scores H svc f 0.95"
  shows "raised (process_frame H svc reset f cb w) = None"
    and "sunk (process_frame H svc reset f cb w) = []"
    and "speaking (after (process_frame H svc reset f cb w)) 1 0 (f @ f) []"
proof -
  obtain w' where eq: "process_frame H svc reset f cb w = state_machine H reset f True cb w'"
    by (rule process_frame_speech [OF assms])
  have dec: "deque_append SPEECH_BUFFER_FRAMES (vad_decision_buffer reset) True = window 1 0"
    using window_push_True [of 0] by (simp add: window_empty)
  have idle: "\<not> in_speech reset" by simp
  have trig: "SPEECH_TRIGGER_RATIO \<le>
      speech_ratio (deque_append SPEECH_BUFFER_FRAMES (vad_decision_buffer reset) True)"
    unfolding dec by (simp add: speech_ratio_window_speech SPEECH_TRIGGER_RATIO_def)
  note t = state_machine_trigger [OF idle trig, of H f cb w']
  show "raised (process_frame H svc reset f cb w) = None" by (simp add: eq)
  show "sunk (process_frame H svc reset f cb w) = []" by (simp add: eq t)
  show "speaking (after (process_frame H svc reset f cb w)) 1 0 (f @ f) []"
    unfolding speaking_def eq using t dec
    by (simp add: deque_append_short PRE_SPEECH_FRAMES_eq)
qed

lemma speech_step:
  assumes sp: "speaking st a 0 sb tr" and a: "0 < a" and sc: "scores H svc f 0.95"
  shows "raised (process_frame H svc st f cb w) = None"
    and "sunk (process_frame H svc st f cb w) = []"
    and "speaking (after (process_frame H svc st f cb w)) (Suc a) 0 (sb @ f) []"
proof -
  obtain w' where eq: "process_frame H svc st f cb w = state_machine H st f True cb w'"
    by (rule process_frame_speech [OF sc])
  have dec: "deque_append SPEECH_BUFFER_FRAMES (vad_decision_buffer st) True = window (Suc a) 0"
    using sp by (simp add: speaking_def window_push_True)
  have insp: "in_speech st" using sp by (simp add: speaking_def)
  have hold: "\<not> speech_ratio (deque_append SPEECH_BUFFER_FRAMES (vad_decision_buffer st) True)
                < SPEECH_RELEASE_RATIO"
    unfolding dec by (simp add: speech_ratio_window_speech SPEECH_RELEASE_RATIO_def)
  note h = state_machine_hold [OF insp hold, of H f cb w']
  show "raised (process_frame H svc st f cb w) = None" by (simp add: eq)
  show "sunk (process_frame H svc st f cb w) = []" by (simp add: eq h)
  show "speaking (after (process_frame H svc st f cb w)) (Suc a) 0 (sb @ f) []"
    using sp by (simp add: eq h speaking_def window_push_True window_push_False)
qed

lemma hold_step:
  assumes sp: "speaking st a b sb tr" and sc: "scores H svc f 0.05"
    and ratio: "SPEECH_RELEASE_RATIO \<le> speech_ratio (window a (Suc b))"
  shows "raised (process_frame H svc st f cb w) = None"
    and "sunk (process_frame H svc st f cb w) = []"
    and "speaking (after (process_frame H svc st f cb w)) a (Suc b) (sb @ f) []"
proof -
  obtain w' where eq: "process_frame H svc st f cb w = state_machine H st f False cb w'"
    by (rule process_frame_nonspeech [OF sc])
  have dec: "deque_append SPEECH_BUFFER_FRAMES (vad_decision_buffer st) False = window a (Suc b)"
    using sp by (simp add: speaking_def window_push_False)
  have insp: "in_speech st" using sp by (simp add: speaking_def)
  have hold: "\<not> speech_ratio (deque_append SPEECH_BUFFER_FRAMES (vad_decision_buffer st) False)
                < SPEECH_RELEASE_RATIO"
    unfolding dec using ratio by simp
  note h = state_machine_hold [OF insp hold, of H f cb w']
  show "raised (process_frame H svc st f cb w) = None" by (simp add: eq)
  show "sunk (process_frame H svc st f cb w) = []" by (simp add: eq h)
  show "speaking (after (process_frame H svc st f cb w)) a (Suc b) (sb @ f) []"
    using sp by (simp add: eq h speaking_def window_push_True window_push_False)
qed

lemma countdown_step:
  assumes sp: "speaking st a b sb tr" and sc: "scores H svc f 0.05"
    and ratio: "speech_ratio (window a (Suc b)) < SPEECH_RELEASE_RATIO"
    and room: "length tr < 20"
  shows "raised (process_frame H svc st f cb w) = None"
    and "sunk (process_frame H svc st f cb w) = []"
    and "speaking (after (process_frame H svc st f cb w)) a (Suc b) (sb @ f) (tr @ [f])"
proof -
  obtain w' where eq: "process_frame H svc st f cb w = state_machine H st f False cb w'"
    by (rule process_frame_nonspeech [OF sc])
  have dec: "deque_append SPEECH_BUFFER_FRAMES (vad_decision_buffer st) False = window a (Suc b)"
    using sp by (simp add: speaking_def window_push_False)
  have insp: "in_speech st" using sp by (simp add: speaking_def)
  have low: "speech_ratio (deque_append SPEECH_BUFFER_FRAMES (vad_decision_buffer st) False)
                < SPEECH_RELEASE_RATIO"
    unfolding dec using ratio by simp
  have tr: "deque_append TRAILING_SILENCE_FRAMES (trailing_silence_buffer st) f = tr @ [f]"
    using sp room by (simp add: speaking_def deque_append_short TRAILING_SILENCE_FRAMES_eq)
  have notfull: "length (deque_append TRAILING_SILENCE_FRAMES (trailing_silence_buffer st) f)
                   \<noteq> TRAILING_SILENCE_FRAMES"
    unfolding tr using room by (simp add: TRAILING_SILENCE_FRAMES_eq)
  note h = state_machine_countdown [OF insp low notfull, of H cb w']
  show "raised (process_frame H svc st f cb w) = None" by (simp add: eq)
  show "sunk (process_frame H svc st f cb w) = []" by (simp add: eq h)
  show "speaking (after (process_frame H svc st f cb w)) a (Suc b) (sb @ f) (tr @ [f])"
    using sp room
    by (simp add: eq h speaking_def window_push_False deque_append_short TRAILING_SILENCE_FRAMES_eq)
qed

lemma finalize_step:
  assumes sp: "speaking st a b sb tr" and sc: "scores H svc f 0.05"
    and ratio: "speech_ratio (window a (Suc b)) < SPEECH_RELEASE_RATIO"
    and full: "length tr = 20"
  shows "raised (process_frame H svc st f cb w) = None"
    and "sunk (process_frame H svc st f cb w) =
           (if min_utterance_bytes \<le> length (sb @ f) \<and> cb then [sb @ f] else [])"
    and "after (process_frame H svc st f cb w) = reset"
proof -
  obtain w' where eq: "process_frame H svc st f cb w = state_machine H st f False cb w'"
    by (rule process_frame_nonspeech [OF sc])
  have dec: "deque_append SPEECH_BUFFER_FRAMES (vad_decision_buffer st) False = window a (Suc b)"
    using sp by (simp add: speaking_def window_push_False)
  have insp: "in_speech st" using sp by (simp add: speaking_def)
  have low: "speech_ratio (deque_append SPEECH_BUFFER_FRAMES (vad_decision_buffer st) False)
                < SPEECH_RELEASE_RATIO"
    unfolding dec using ratio by simp
  have tr: "length (deque_append TRAILING_SILENCE_FRAMES (trailing_silence_buffer st) f)
              = TRAILING_SILENCE_FRAMES"
    using sp full by (simp add: speaking_def deque_append_short TRAILING_SILENCE_FRAMES_eq)
  note h = state_machine_finalize [OF insp low tr, of H cb w']
  have sb: "speech_buffer st = sb" using sp by (simp add: speaking_def)
  show "raised (process_frame H svc st f cb w) = None" by (simp add: eq)
  show "sunk (process_frame H svc st f cb w) =
           (if min_utterance_bytes \<le> length (sb @ f) \<and> cb then [sb @ f] else [])"
    by (simp add: eq h sb)
  show "after (process_frame H svc st f cb w) = reset" by (simp add: eq h)
qed

section \<open>Runs of scored frames\<close>

lemma speech_run:
  assumes "speaking st a 0 sb tr" and "0 < a" and "\<forall>f\<in>set fs. scores H svc f 0.95"
  shows "raised (run_frames H svc st fs cb w) = None \<and>
         sunk (run_frames H svc st fs cb w) = [] \<and>
         speaking (after (run_frames H svc st fs cb w)) (a + length fs) 0 (sb @ concat fs)
           (if fs = [] then tr else [])"
  using assms
proof (induction fs arbitrary: st a sb tr w)
  case Nil
  then show ?case by simp
next
  case (Cons f fs)
  let ?r1 = "process_frame H svc st f cb w"
  have sc: "scores H svc f 0.95" using Cons.prems(3) by simp
  note s1 = speech_step [OF Cons.prems(1,2) sc, of cb w]
  have rest: "\<forall>f\<in>set fs. scores H svc f 0.95" using Cons.prems(3) by simp
  have ih: "raised (run_frames H svc (after ?r1) fs cb (world ?r1)) = None \<and>
         sunk (run_frames H svc (after ?r1) fs cb (world ?r1)) = [] \<and>
         speaking (after (run_frames H svc (after ?r1) fs cb (world ?r1))) (Suc a + length fs) 0
           ((sb @ f) @ concat fs) (if fs = [] then [] else [])"
    by (rule Cons.IH [OF s1(3) _ rest]) simp
  show ?case using s1(1,2) ih by (simp add: Let_def)
qed

lemma hold_run:
  assumes "speaking st a b sb tr" and "\<forall>f\<in>set gs. scores H svc f 0.05"
    and "\<forall>i. 0 < i \<and> i \<le> length gs \<longrightarrow> SPEECH_RELEASE_RATIO \<le> speech_ratio (window a (b + i))"
  shows "raised (run_frames H svc st gs cb w) = None \<and>
         sunk (run_frames H svc st gs cb w) = [] \<and>
         speaking (after (run_frames H svc st gs cb w)) a (b + length gs) (sb @ concat gs)
           (if gs = [] then tr else [])"
  using assms
proof (induction gs arbitrary: st b sb tr w)
  case Nil
  then show ?case by simp
next
  case (Cons g gs)
  let ?r1 = "process_frame H svc st g cb w"
  have sc: "scores H svc g 0.05" using Cons.prems(2) by simp
  have r1: "SPEECH_RELEASE_RATIO \<le> speech_ratio (window a (Suc b))"
    using Cons.prems(3) [rule_format, of 1] by simp
  note s1 = hold_step [OF Cons.prems(1) sc r1, of cb w]
  have rest: "\<forall>f\<in>set gs. scores H svc f 0.05" using Cons.prems(2) by simp
  have ratios: "\<forall>i. 0 < i \<and> i \<le> length gs \<longrightarrow>
                  SPEECH_RELEASE_RATIO \<le> speech_ratio (window a (Suc b + i))"
    using Cons.prems(3) by (auto dest: spec [where x = "Suc i" for i])
  have ih: "raised (run_frames H svc (after ?r1) gs cb (world ?r1)) = None \<and>
         sunk (run_frames H svc (after ?r1) gs cb (world ?r1)) = [] \<and>
         speaking (after (run_frames H svc (after ?r1) gs cb (world ?r1))) a (Suc b + length gs)
           ((sb @ g) @ concat gs) (if gs = [] then [] else [])"
    by (rule Cons.IH [OF s1(3) rest ratios])
  show ?case using s1(1,2) ih by (simp add: Let_def)
qed

lemma countdown_run:
  assumes "speaking st a b sb tr" and "\<forall>f\<in>set gs. scores H svc f 0.05"
    and "\<forall>i. 0 < i \<and> i \<le> length gs \<longrightarrow> speech_ratio (window a (b + i)) < SPEECH_RELEASE_RATIO"
    and "length tr + length gs \<le> 20"
  shows "raised (run_frames H svc st gs cb w) = None \<and>
         sunk (run_frames H svc st gs cb w) = [] \<and>
         speaking (after (run_frames H svc st gs cb w)) a (b + length gs) (sb @ concat gs)
           (tr @ gs)"
  using assms
proof (induction gs arbitrary: st b sb tr w)
  case Nil
  then show ?case by simp
next
  case (Cons g gs)
  let ?r1 = "process_frame H svc st g cb w"
  have sc: "scores H svc g 0.05" using Cons.prems(2) by simp
  have r1: "speech_ratio (window a (Suc b)) < SPEECH_RELEASE_RATIO"
    using Cons.prems(3) [rule_format, of 1] by simp
  have room: "length tr < 20" using Cons.prems(4) by simp
  note s1 = countdown_step [OF Cons.prems(1) sc r1 room, of cb w]
  have rest: "\<forall>f\<in>set gs. scores H svc f 0.05" using Cons.prems(2) by simp
  have ratios: "\<forall>i. 0 < i \<and> i \<le> length gs \<longrightarrow>
                  speech_ratio (window a (Suc b + i)) < SPEECH_RELEASE_RATIO"
    using Cons.prems(3) by (auto dest: spec [where x = "Suc i" for i])
  have room': "length (tr @ [g]) + length gs \<le> 20" using Cons.prems(4) by simp
  have ih: "raised (run_frames H svc (after ?r1) gs cb (world ?r1)) = None \<and>
         sunk (run_frames H svc (after ?r1) gs cb (world ?r1)) = [] \<and>
         speaking (after (run_frames H svc (after ?r1) gs cb (world ?r1))) a (Suc b + length gs)
           ((sb @ g) @ concat gs) ((tr @ [g]) @ gs)"
    by (rule Cons.IH [OF s1(3) rest ratios room'])
  show ?case using s1(1,2) ih by (simp add: Let_def)
qed

section \<open>Successive calls\<close>

lemma process_audio_chunk_loaded [simp]:
  "vad_model_loaded (after (process_audio_chunk H svc cid audio cb w)) = vad_model_loaded svc"
  by (simp add: process_audio_chunk_def get_state_def Let_def split: option.splits prod.splits)

lemma process_audio_chunk_model [simp]:
  "model (after (process_audio_chunk H svc cid audio cb w)) = model svc"
  by (simp add: process_audio_chunk_def get_state_def Let_def split: option.splits prod.splits)

lemma state_partial_nil: "partial_frame st = [] \<Longrightarrow> st\<lparr>partial_frame := []\<rparr> = st"
  by simp

lemma two_calls:
  assumes loaded: "vad_model_loaded svc"
  shows "(let r1 = process_audio_chunk H svc cid c cb w in
          if raised r1 \<noteq> None then r1
          else (let r2 = process_audio_chunk H (after r1) cid d cb (world r1)
                in r2\<lparr>sunk := sunk r1 @ sunk r2\<rparr>))
         = process_audio_chunk H svc cid (c @ d) cb w"
proof -
  define state where "state = fst (get_state svc cid)"
  define p where "p = partial_frame state"
  define st0 where "st0 = state\<lparr>partial_frame := []\<rparr>"
  define rr1 where "rr1 = run_frames H svc st0 (frames_of (p @ c)) cb w"
  define rem1 where "rem1 = remainder_of (p @ c)"
  define final1 where "final1 = (if raised rr1 = None then (after rr1)\<lparr>partial_frame := rem1\<rparr> else after rr1)"
  define r1 where "r1 = process_audio_chunk H svc cid c cb w"
  have r1: "r1 = \<lparr>after = svc\<lparr>connections := (connections svc)(cid \<mapsto> final1)\<rparr>,
                  world = world rr1, sunk = sunk rr1, raised = raised rr1\<rparr>"
    unfolding r1_def final1_def rem1_def rr1_def st0_def p_def state_def
    by (simp add: process_audio_chunk_frames [OF loaded] Let_def)
  have split: "frames_of (p @ c @ d) = frames_of (p @ c) @ frames_of (rem1 @ d)"
    using frames_of_append [of "p @ c" d] by (simp add: rem1_def)
  have rem: "remainder_of (p @ c @ d) = remainder_of (rem1 @ d)"
    using remainder_of_append [of "p @ c" d] by (simp add: rem1_def)
  define rr where "rr = run_frames H svc st0 (frames_of (p @ c @ d)) cb w"
  have whole: "process_audio_chunk H svc cid (c @ d) cb w =
      \<lparr>after = svc\<lparr>connections := (connections svc)(cid \<mapsto>
                 (if raised rr = None then (after rr)\<lparr>partial_frame := remainder_of (p @ c @ d)\<rparr>
                  else after rr))\<rparr>,
       world = world rr, sunk = sunk rr, raised = raised rr\<rparr>"
    unfolding rr_def st0_def p_def state_def
    by (simp add: process_audio_chunk_frames [OF loaded] Let_def)
  have pf1: "partial_frame (after rr1) = []"
    unfolding rr1_def st0_def by (rule run_frames_partial) simp
  show ?thesis
  proof (cases "raised rr1 = None")
    case False
    then have "rr = rr1"
      unfolding rr_def split run_frames_append by (simp add: rr1_def Let_def)
    with False show ?thesis
      unfolding r1_def [symmetric] whole by (auto simp: r1 final1_def Let_def)
  next
    case True
    define svc' where "svc' = after r1"
    have svc': "svc' = svc\<lparr>connections := (connections svc)(cid \<mapsto> (after rr1)\<lparr>partial_frame := rem1\<rparr>)\<rparr>"
      using True by (simp add: svc'_def r1 final1_def)
    have loaded': "vad_model_loaded svc'" using loaded by (simp add: svc')
    have gs': "fst (get_state svc' cid) = (after rr1)\<lparr>partial_frame := rem1\<rparr>"
      by (simp add: svc' get_state_def)
    define rr2 where "rr2 = run_frames H svc (after rr1) (frames_of (rem1 @ d)) cb (world rr1)"
    have st0': "(after rr1)\<lparr>partial_frame := []\<rparr> = after rr1"
      using pf1 by simp
    have second: "process_audio_chunk H svc' cid d cb (world rr1) =
      \<lparr>after = svc\<lparr>connections := (connections svc)(cid \<mapsto>
                 (if raised rr2 = None then (after rr2)\<lparr>partial_frame := remainder_of (rem1 @ d)\<rparr>
                  else after rr2))\<rparr>,
       world = world rr2, sunk = sunk rr2, raised = raised rr2\<rparr>"
      unfolding process_audio_chunk_frames [OF loaded'] gs' Let_def
      by (auto simp: st0' rr2_def svc')
    have rr: "rr = rr2\<lparr>sunk := sunk rr1 @ sunk rr2\<rparr>"
      unfolding rr_def split run_frames_append using True
      by (simp add: rr1_def [symmetric] rr2_def Let_def)
    have w1: "world r1 = world rr1" and ra1: "raised r1 = None" and su1: "sunk r1 = sunk rr1"
      using True by (simp_all add: r1)
    show ?thesis
      unfolding r1_def [symmetric] Let_def whole
      using ra1 by (auto simp: svc'_def [symmetric] w1 su1 second rr rem)
  qed
qed

lemma feed_concat:
  "vad_model_loaded svc \<Longrightarrow>
   feed H svc cid (c # cs) cb w = process_audio_chunk H svc cid (concat (c # cs)) cb w"
proof (induction cs arbitrary: c svc w)
  case Nil
  then show ?case by (simp add: Let_def)
next
  case (Cons c' cs)
  let ?r1 = "process_audio_chunk H svc cid c cb w"
  have "feed H (after ?r1) cid (c' # cs) cb (world ?r1)
          = process_audio_chunk H (after ?r1) cid (concat (c' # cs)) cb (world ?r1)"
    by (rule Cons.IH) (simp add: Cons.prems)
  then have "feed H svc cid (c # c' # cs) cb w =
        (let r1 = process_audio_chunk H svc cid c cb w in
          if raised r1 \<noteq> None then r1
          else (let r2 = process_audio_chunk H (after r1) cid (concat (c' # cs)) cb (world r1)
                in r2\<lparr>sunk := sunk r1 @ sunk r2\<rparr>))"
    by (simp add: Let_def)
  also have "\<dots> = process_audio_chunk H svc cid (c @ concat (c' # cs)) cb w"
    by (rule two_calls [OF Cons.prems])
  finally show ?case by simp
qed

section \<open>Split determinism\<close>

lemma frames_of_frame_append:
  "length f = FRAME_BYTES \<Longrightarrow> frames_of (f @ xs) = f # frames_of xs"
  by (subst frames_of.simps) simp

lemma remainder_of_frame_append:
  "length f = FRAME_BYTES \<Longrightarrow> remainder_of (f @ xs) = remainder_of xs"
  by (subst remainder_of.simps) simp

lemma frames_of_concat_frames:
  "\<forall>f\<in>set fs. length f = FRAME_BYTES \<Longrightarrow> frames_of (concat fs @ xs) = fs @ frames_of xs"
  by (induction fs) (simp_all add: frames_of_frame_append)

lemma remainder_of_concat_frames:
  "\<forall>f\<in>set fs. length f = FRAME_BYTES \<Longrightarrow> remainder_of (concat fs @ xs) = remainder_of xs"
  by (induction fs) (simp_all add: remainder_of_frame_append)

lemma frames_of_nil: "frames_of [] = []" and remainder_of_nil: "remainder_of [] = []"
  by (simp_all add: frames_of_short remainder_of_short FRAME_BYTES_eq)

lemma loud_length: "length loud = FRAME_BYTES" and soft_length: "length soft = FRAME_BYTES"
  and silence_length: "length silence = FRAME_BYTES"
  by (simp_all add: loud_def soft_def silence_def tone_length)

text \<open>
  Claim C3 (split determinism). In segmentation mode, feeding a non-empty sequence of
  chunks to one connection in successive calls has the same outcome (service state with
  the stored remainder, utterances delivered, exception raised) as feeding their
  concatenation in one call (a raise ends the sequence, as it ends the call). A call
  hands \<open>_process_frame\<close> exactly the frames that the splitter cuts from the stored remainder followed by the chunk, in order, and stores
  the splitter's remainder; the frames followed by the remainder are the input bytes,
  every frame has \<open>FRAME_BYTES\<close> bytes and the remainder fewer.
\<close>

theorem split_determinism:
  assumes "vad_model_loaded svc" and "chunks \<noteq> []"
  shows "feed H svc cid chunks cb w = process_audio_chunk H svc cid (concat chunks) cb w
       \<and> process_audio_chunk H svc cid audio cb w =
           (let state = fst (get_state svc cid);
                (frames, remainder) = splitter (partial_frame state) audio;
                r = run_frames H svc (state\<lparr>partial_frame := []\<rparr>) frames cb w;
                final = (if raised r = None then (after r)\<lparr>partial_frame := remainder\<rparr>
                         else after r)
            in \<lparr>after = svc\<lparr>connections := (connections svc)(cid \<mapsto> final)\<rparr>,
                world = world r, sunk = sunk r, raised = raised r\<rparr>)
       \<and> (let (frames, remainder) = splitter old audio
          in concat frames @ remainder = old @ audio
             \<and> (\<forall>f\<in>set frames. length f = FRAME_BYTES)
             \<and> length remainder < FRAME_BYTES)"
proof (intro conjI)
  from assms(2) obtain c cs where "chunks = c # cs" by (cases chunks) auto
  then show "feed H svc cid chunks cb w = process_audio_chunk H svc cid (concat chunks) cb w"
    using feed_concat [OF assms(1), of H cid c cs cb w] by simp
  show "process_audio_chunk H svc cid audio cb w =
           (let state = fst (get_state svc cid);
                (frames, remainder) = splitter (partial_frame state) audio;
                r = run_frames H svc (state\<lparr>partial_frame := []\<rparr>) frames cb w;
                final = (if raised r = None then (after r)\<lparr>partial_frame := remainder\<rparr>
                         else after r)
            in \<lparr>after = svc\<lparr>connections := (connections svc)(cid \<mapsto> final)\<rparr>,
                world = world r, sunk = sunk r, raised = raised r\<rparr>)"
    by (simp add: process_audio_chunk_frames [OF assms(1)] splitter_def Let_def)
  show "let (frames, remainder) = splitter old audio
          in concat frames @ remainder = old @ audio
             \<and> (\<forall>f\<in>set frames. length f = FRAME_BYTES)
             \<and> length remainder < FRAME_BYTES"
    by (simp add: splitter_def frames_of_concat frames_of_length remainder_of_length)
qed

theorem split_determinism_witness:
  "vad_model_loaded service0 \<and> [loud @ [1], [2, 3]] \<noteq> []
   \<and> feed host0 service0 ''c'' [loud @ [1], [2, 3]] True 0
       = process_audio_chunk host0 service0 ''c'' (loud @ [1, 2, 3]) True 0
   \<and> splitter [] (loud @ [1, 2, 3]) = ([loud], [1, 2, 3])
   \<and> concat [loud] @ [1, 2, 3] = [] @ loud @ [1, 2, 3]
   \<and> length loud = FRAME_BYTES \<and> length [1, 2, 3 :: byte] < FRAME_BYTES"
proof -
  have l: "vad_model_loaded service0"
    by (simp add: service0_def VadService_init_def)
  have s: "splitter [] (loud @ [1, 2, 3]) = ([loud], [1, 2, 3])"
    by (simp add: splitter_def frames_of_frame_append remainder_of_frame_append loud_length
        frames_of_short remainder_of_short FRAME_BYTES_eq)
  show ?thesis
    using split_determinism [OF l, where chunks = "[loud @ [1], [2, 3]]" and H = host0
        and cid = "''c''" and cb = True and w = 0 and old = "[]" and audio = "loud @ [1, 2, 3]"] l s
    by simp
qed

section \<open>Invariant of reachable states, and passthrough\<close>

text \<open>
  Claim C9 (state invariant). In every service reachable from construction through
  \<open>process_audio_chunk\<close> calls (returning or raising) and \<open>cleanup_connection\<close> calls,
  a connection state that is Idle has an empty speech accumulation buffer.
\<close>

theorem idle_has_empty_accumulation:
  assumes "reachable H svc" and "connections svc cid = Some st" and "\<not> in_speech st"
  shows "speech_buffer st = []"
  using reachable_state_ok [OF assms(1,2)] assms(3) by (simp add: state_ok_def)

lemma service0_sel [simp]:
  "vad_model_loaded service0" "model service0 = Some model0" "connections service0 = Map.empty"
  by (simp_all add: service0_def VadService_init_def)

lemma service_raising_sel [simp]:
  "vad_model_loaded service_raising" "model service_raising = Some model_raising"
  "connections service_raising = Map.empty"
  by (simp_all add: service_raising_def VadService_init_def)

lemma passthrough0_sel [simp]:
  "\<not> vad_model_loaded passthrough0" "model passthrough0 = None"
  "connections passthrough0 = Map.empty"
  by (simp_all add: passthrough0_def VadService_init_def)

lemma reset_partial [simp]: "reset\<lparr>partial_frame := []\<rparr> = reset"
  by (simp add: reset_def)

lemma get_state_fresh: "connections svc cid = None \<Longrightarrow> fst (get_state svc cid) = reset"
  by (simp add: get_state_def)

lemma process_audio_chunk_silence_tail:
  "process_audio_chunk host0 service0 ''c'' (silence @ [1, 2, 3]) True 0 =
     \<lparr>after = service0
                \<lparr>connections := [''c'' \<mapsto> reset\<lparr>vad_decision_buffer := [False],
                                   pre_speech_buffer := [silence], partial_frame := [1, 2, 3]\<rparr>]\<rparr>,
      world = 0, sunk = [], raised = None\<rparr>"
proof -
  have stay: "\<not> SPEECH_TRIGGER_RATIO \<le>
      speech_ratio (deque_append SPEECH_BUFFER_FRAMES (vad_decision_buffer reset) False)"
    by (simp add: deque_append_short SPEECH_BUFFER_FRAMES_eq speech_ratio_def SPEECH_TRIGGER_RATIO_def)
  have idle: "\<not> in_speech reset" by simp
  have step: "process_frame host0 service0 reset silence True 0 =
      returned (reset\<lparr>vad_decision_buffer := [False], pre_speech_buffer := [silence]\<rparr>) 0 []"
    by (simp add: process_frame_gated [OF silence_length gated_silence]
        state_machine_idle_stay [OF idle stay] deque_append_short PRE_SPEECH_FRAMES_eq
        SPEECH_BUFFER_FRAMES_eq)
  have run: "run_frames host0 service0 reset [silence] True 0 =
      returned (reset\<lparr>vad_decision_buffer := [False], pre_speech_buffer := [silence]\<rparr>) 0 []"
    by (simp add: step Let_def returned_def)
  have fr: "frames_of (silence @ [1, 2, 3]) = [silence]"
    and re: "remainder_of (silence @ [1, 2, 3]) = [1, 2, 3]"
    by (simp_all add: frames_of_frame_append remainder_of_frame_append silence_length
        frames_of_short remainder_of_short FRAME_BYTES_eq)
  have l: "vad_model_loaded service0" by simp
  show ?thesis
    unfolding process_audio_chunk_frames [OF l] Let_def
    by (simp add: get_state_fresh fr re run del: run_frames.simps)
qed

theorem idle_has_empty_accumulation_witness:
  "reachable host0
     (after (process_audio_chunk host0 service0 ''c'' (silence @ [1, 2, 3]) True 0))
   \<and> connections
       (after (process_audio_chunk host0 service0 ''c'' (silence @ [1, 2, 3]) True 0))
       ''c''
     = Some (reset\<lparr>vad_decision_buffer := [False], pre_speech_buffer := [silence],
                   partial_frame := [1, 2, 3]\<rparr>)
   \<and> \<not> in_speech (reset\<lparr>vad_decision_buffer := [False], pre_speech_buffer := [silence],
                           partial_frame := [1, 2, 3]\<rparr>)
   \<and> speech_buffer (reset\<lparr>vad_decision_buffer := [False], pre_speech_buffer := [silence],
                           partial_frame := [1, 2, 3]\<rparr>) = []"
proof -
  let ?svc = "after (process_audio_chunk host0 service0 ''c'' (silence @ [1, 2, 3]) True 0)"
  let ?st = "reset\<lparr>vad_decision_buffer := [False], pre_speech_buffer := [silence],
                   partial_frame := [1, 2, 3]\<rparr>"
  have "reachable host0 service0" unfolding service0_def by (rule reachable.constructed)
  then have r: "reachable host0 ?svc" by (rule reachable.chunk)
  have c: "connections ?svc ''c'' = Some ?st"
    by (simp add: process_audio_chunk_silence_tail)
  have i: "\<not> in_speech ?st" by simp
  from idle_has_empty_accumulation [OF r c i] r c i show ?thesis by simp
qed

text \<open>
  Claim C7 (passthrough equivalence). When the model was not loaded at construction,
  a \<open>process_audio_chunk\<close> call with a callback hands the callback the input chunk,
  unchanged, exactly once, and changes neither the service nor the world; a sequence of
  calls delivers the chunks one by one, unsegmented.
\<close>

theorem passthrough_equivalence:
  assumes "\<not> vad_model_loaded svc"
  shows "process_audio_chunk H svc cid chunk True w
           = \<lparr>after = svc, world = w, sunk = [chunk], raised = None\<rparr>
       \<and> feed H svc cid chunks True w
           = \<lparr>after = svc, world = w, sunk = chunks, raised = None\<rparr>"
proof
  show one: "process_audio_chunk H svc cid chunk True w
           = \<lparr>after = svc, world = w, sunk = [chunk], raised = None\<rparr>" for chunk w
    using assms by (simp add: process_audio_chunk_def returned_def)
  show "feed H svc cid chunks True w = \<lparr>after = svc, world = w, sunk = chunks, raised = None\<rparr>"
    by (induction chunks arbitrary: w) (simp_all add: one returned_def)
qed

theorem passthrough_equivalence_witness:
  "\<not> vad_model_loaded passthrough0
   \<and> process_audio_chunk host0 passthrough0 ''c'' [1, 2, 3] True 0
       = \<lparr>after = passthrough0, world = 0, sunk = [[1, 2, 3]], raised = None\<rparr>
   \<and> feed host0 passthrough0 ''c'' [[1], [2, 3]] True 0
       = \<lparr>after = passthrough0, world = 0, sunk = [[1], [2, 3]], raised = None\<rparr>"
proof -
  have n: "\<not> vad_model_loaded passthrough0"
    by simp
  from passthrough_equivalence [OF n, where H = host0 and cid = "''c''" and chunk = "[1, 2, 3]"
      and w = 0 and chunks = "[[1], [2, 3]]"] n
  show ?thesis by simp
qed

section \<open>Scoring failures and empty chunks\<close>

lemma process_frame_raise:
  assumes "length f = FRAME_BYTES" and "\<not> gated H f"
    and "model svc = Some m" and "m w (audio_f32 f) SAMPLE_RATE = (Inl e, w')"
  shows "process_frame H svc st f cb w = \<lparr>after = st, world = w', sunk = [], raised = Some e\<rparr>"
  using assms by (simp add: process_frame_def speech_prob_def gated_def)

text \<open>
  Claim C2, as the specification states it, fails: the model call has no handler around
  it, so a raise leaves \<open>_process_frame\<close> and \<open>process_audio_chunk\<close>. Here the model
  raises on the one frame of the chunk: the call raises, and the decision window of the
  connection stays empty.
\<close>

theorem scorer_failure_counterexample:
  "process_audio_chunk host0 service_raising ''c'' loud True 0 =
     \<lparr>after = service_raising\<lparr>connections := [''c'' \<mapsto> reset]\<rparr>,
      world = 1, sunk = [], raised = Some (PyException ''RuntimeError'')\<rparr>
   \<and> vad_decision_buffer reset = []"
proof -
  have l: "vad_model_loaded service_raising" by simp
  have fr: "frames_of loud = [loud]" and re: "remainder_of loud = []"
    using frames_of_frame_append [OF loud_length, of "[]"]
      remainder_of_frame_append [OF loud_length, of "[]"]
    by (simp_all add: frames_of_nil remainder_of_nil)
  have m: "model_raising 0 (audio_f32 loud) SAMPLE_RATE = (Inl (PyException ''RuntimeError''), 1)"
    by (simp add: model_raising_def)
  have step: "process_frame host0 service_raising reset loud True 0 =
      \<lparr>after = reset, world = 1, sunk = [], raised = Some (PyException ''RuntimeError'')\<rparr>"
    by (rule process_frame_raise [where m = model_raising, OF loud_length audio_loud_gate _ m]) simp
  show ?thesis
    unfolding process_audio_chunk_frames [OF l] Let_def
    by (simp add: get_state_fresh fr re step)
qed

text \<open>
  Claim C2, amended. When the model call raises on a frame, the exception propagates
  out of \<open>process_audio_chunk\<close> to its caller. The frames cut before the failing one
  have been processed; the failing frame records no decision and changes no state; the
  call ends there, so the rest of the chunk is not processed and no remainder is stored.
\<close>

theorem scorer_failure_propagates:
  assumes "vad_model_loaded svc"
    and "frames_of (partial_frame (fst (get_state svc cid)) @ audio) = fs1 @ f # fs2"
    and "raised (run_frames H svc ((fst (get_state svc cid))\<lparr>partial_frame := []\<rparr>) fs1 cb w) = None"
    and "\<not> gated H f"
    and "model svc = Some m"
    and "m (world (run_frames H svc ((fst (get_state svc cid))\<lparr>partial_frame := []\<rparr>) fs1 cb w))
           (audio_f32 f) SAMPLE_RATE = (Inl e, w')"
  shows "process_audio_chunk H svc cid audio cb w =
     \<lparr>after = svc\<lparr>connections := (connections svc)(cid \<mapsto>
                after (run_frames H svc ((fst (get_state svc cid))\<lparr>partial_frame := []\<rparr>) fs1 cb w))\<rparr>,
      world = w',
      sunk = sunk (run_frames H svc ((fst (get_state svc cid))\<lparr>partial_frame := []\<rparr>) fs1 cb w),
      raised = Some e\<rparr>"
proof -
  let ?r1 = "run_frames H svc ((fst (get_state svc cid))\<lparr>partial_frame := []\<rparr>) fs1 cb w"
  have "f \<in> set (frames_of (partial_frame (fst (get_state svc cid)) @ audio))"
    using assms(2) by simp
  then have len: "length f = FRAME_BYTES" by (rule frames_of_length)
  have step: "process_frame H svc (after ?r1) f cb (world ?r1) =
      \<lparr>after = after ?r1, world = w', sunk = [], raised = Some e\<rparr>"
    by (rule process_frame_raise [OF len assms(4,5,6)])
  have "run_frames H svc ((fst (get_state svc cid))\<lparr>partial_frame := []\<rparr>) (fs1 @ f # fs2) cb w
        = \<lparr>after = after ?r1, world = w', sunk = sunk ?r1, raised = Some e\<rparr>"
    unfolding run_frames_append using assms(3) by (simp add: Let_def step)
  then show ?thesis
    unfolding process_audio_chunk_frames [OF assms(1)] Let_def assms(2) by simp
qed

theorem scorer_failure_propagates_witness:
  "vad_model_loaded service_raising
   \<and> frames_of (partial_frame (fst (get_state service_raising ''c'')) @ loud) = [] @ loud # []
   \<and> raised (run_frames host0 service_raising
               ((fst (get_state service_raising ''c''))\<lparr>partial_frame := []\<rparr>) [] True 0) = None
   \<and> \<not> gated host0 loud
   \<and> model service_raising = Some model_raising
   \<and> model_raising 0 (audio_f32 loud) SAMPLE_RATE = (Inl (PyException ''RuntimeError''), 1)
   \<and> process_audio_chunk host0 service_raising ''c'' loud True 0 =
       \<lparr>after = service_raising\<lparr>connections := [''c'' \<mapsto> reset]\<rparr>,
        world = 1, sunk = [], raised = Some (PyException ''RuntimeError'')\<rparr>"
proof -
  have l: "vad_model_loaded service_raising" by simp
  have gs: "fst (get_state service_raising ''c'') = reset" by (simp add: get_state_fresh)
  have fr: "frames_of (partial_frame (fst (get_state service_raising ''c'')) @ loud) = [] @ loud # []"
    using frames_of_frame_append [OF loud_length, of "[]"] by (simp add: gs frames_of_nil)
  have r0: "raised (run_frames host0 service_raising
               ((fst (get_state service_raising ''c''))\<lparr>partial_frame := []\<rparr>) [] True 0) = None"
    by simp
  have md: "model service_raising = Some model_raising" by simp
  have m: "model_raising (world (run_frames host0 service_raising
               ((fst (get_state service_raising ''c''))\<lparr>partial_frame := []\<rparr>) [] True 0))
             (audio_f32 loud) SAMPLE_RATE = (Inl (PyException ''RuntimeError''), 1)"
    by (simp add: model_raising_def)
  from scorer_failure_propagates [OF l fr r0 audio_loud_gate md m] l fr r0 audio_loud_gate md m
  show ?thesis by (simp add: gs)
qed

text \<open>
  Claim C8, as the specification states it, fails in passthrough mode: the chunk is
  forwarded whatever its length, so an empty chunk invokes the callback, with empty bytes.
\<close>

theorem empty_chunk_counterexample:
  "sunk (process_audio_chunk host0 passthrough0 ''c'' [] True 0) = [[]]"
  by (simp add: process_audio_chunk_def)

text \<open>
  Claim C8, amended. On a reachable service in segmentation mode an empty chunk is a
  no-op: no frame is processed, the callback is not invoked, nothing is raised, the
  world is untouched, and the connection's state, stored remainder included, is what it
  was (a connection seen for the first time gets a fresh state). In passthrough mode the
  empty chunk is forwarded to the callback like any other chunk.
\<close>

theorem empty_chunk_noop:
  assumes "reachable H svc"
  shows "(vad_model_loaded svc \<longrightarrow>
            process_audio_chunk H svc cid [] cb w =
              \<lparr>after = (case connections svc cid of
                          None \<Rightarrow> svc\<lparr>connections := (connections svc)(cid \<mapsto> reset)\<rparr>
                        | Some st \<Rightarrow> svc),
               world = w, sunk = [], raised = None\<rparr>)
       \<and> (\<not> vad_model_loaded svc \<longrightarrow>
            process_audio_chunk H svc cid [] cb w =
              \<lparr>after = svc, world = w, sunk = (if cb then [[]] else []), raised = None\<rparr>)"
proof (intro conjI impI)
  assume loaded: "vad_model_loaded svc"
  define state where "state = fst (get_state svc cid)"
  have "state_ok state"
    unfolding state_def get_state_fst
    using reachable_state_ok [OF assms] by (auto split: option.splits simp: state_ok_reset)
  then have short: "length (partial_frame state) < FRAME_BYTES" by (simp add: state_ok_def)
  have upd: "svc\<lparr>connections := (connections svc)(cid \<mapsto> state)\<rparr> =
        (case connections svc cid of
           None \<Rightarrow> svc\<lparr>connections := (connections svc)(cid \<mapsto> reset)\<rparr>
         | Some st \<Rightarrow> svc)"
    unfolding state_def get_state_fst
    by (auto split: option.splits simp: fun_upd_idem)
  show "process_audio_chunk H svc cid [] cb w =
              \<lparr>after = (case connections svc cid of
                          None \<Rightarrow> svc\<lparr>connections := (connections svc)(cid \<mapsto> reset)\<rparr>
                        | Some st \<Rightarrow> svc),
               world = w, sunk = [], raised = None\<rparr>"
    using short
    by (simp add: process_audio_chunk_frames [OF loaded] Let_def state_def [symmetric]
        frames_of_short remainder_of_short upd [symmetric])
next
  assume "\<not> vad_model_loaded svc"
  then show "process_audio_chunk H svc cid [] cb w =
              \<lparr>after = svc, world = w, sunk = (if cb then [[]] else []), raised = None\<rparr>"
    by (simp add: process_audio_chunk_def returned_def)
qed

theorem empty_chunk_noop_witness:
  "reachable host0
     (after (process_audio_chunk host0 service0 ''c'' (silence @ [1, 2, 3]) True 0))
   \<and> vad_model_loaded (after (process_audio_chunk host0 service0 ''c'' (silence @ [1, 2, 3]) True 0))
   \<and> process_audio_chunk host0
       (after (process_audio_chunk host0 service0 ''c'' (silence @ [1, 2, 3]) True 0)) ''c'' [] True 7
     = \<lparr>after = after (process_audio_chunk host0 service0 ''c'' (silence @ [1, 2, 3]) True 0),
        world = 7, sunk = [], raised = None\<rparr>
   \<and> reachable host0 passthrough0 \<and> \<not> vad_model_loaded passthrough0
   \<and> process_audio_chunk host0 passthrough0 ''c'' [] True 7
     = \<lparr>after = passthrough0, world = 7, sunk = [[]], raised = None\<rparr>"
proof -
  let ?svc = "after (process_audio_chunk host0 service0 ''c'' (silence @ [1, 2, 3]) True 0)"
  have "reachable host0 service0" unfolding service0_def by (rule reachable.constructed)
  then have r: "reachable host0 ?svc" by (rule reachable.chunk)
  have l: "vad_model_loaded ?svc" by simp
  have c: "connections ?svc ''c'' \<noteq> None"
    by (simp add: process_audio_chunk_silence_tail)
  have rp: "reachable host0 passthrough0" unfolding passthrough0_def by (rule reachable.constructed)
  have np: "\<not> vad_model_loaded passthrough0" by simp
  from empty_chunk_noop [OF r, of "''c''" True 7] empty_chunk_noop [OF rp, of "''c''" True 7]
    r l c rp np
  show ?thesis by (auto split: option.splits)
qed

section \<open>The trigger\<close>

lemma trigger_guard_ceiling:
  assumes "SPEECH_TRIGGER_RATIO \<le> speech_ratio dec"
  shows "\<lceil>0.60 * real (length dec)\<rceil> \<le> int (count_list dec True)"
proof -
  have n: "length dec \<noteq> 0"
    using assms by (auto simp: speech_ratio_def SPEECH_TRIGGER_RATIO_def)
  then have "0.9 * real (length dec) \<le> real (count_list dec True)"
    using assms by (simp add: speech_ratio_def SPEECH_TRIGGER_RATIO_def pos_le_divide_eq)
  then have "0.6 * real (length dec) \<le> real (count_list dec True)"
    by simp
  then show ?thesis by (simp add: ceiling_le_iff)
qed



lemma process_frame_scored:
  "length f = FRAME_BYTES \<Longrightarrow> speech_prob H svc f w = (Inr p, w') \<Longrightarrow>
   process_frame H svc st f cb w = state_machine H st f (is_speech p) cb w'"
  by (simp add: process_frame_def)

lemma speech_prob_soft: "speech_prob host0 service0 soft w = (Inr 0.05, Suc w)"
proof -
  have "\<not> np_less host0 (rms host0 (audio_f32 soft)) RMS_NOISE_GATE"
    using audio_soft_gate by (simp add: gated_def)
  then show ?thesis
    by (simp add: speech_prob_def audio_soft replicate_512_Cons model0_def)
qed

lemma speech_prob_loud: "speech_prob host0 service0 loud w = (Inr 0.95, Suc w)"
proof -
  have "\<not> np_less host0 (rms host0 (audio_f32 loud)) RMS_NOISE_GATE"
    using audio_loud_gate by (simp add: gated_def)
  then show ?thesis
    by (simp add: speech_prob_def audio_loud replicate_512_Cons model0_def)
qed

text \<open>
  Claim C4. Let a complete frame be processed while the machine is Idle, the gate and
  the model giving it the probability \<open>p\<close>, so that its decision is \<open>p > 0.85\<close>. Then
  the decision window afterwards is the window before with this decision pushed, and
  the machine is Speaking afterwards exactly when that window has a ratio of at least
  \<open>SPEECH_TRIGGER_RATIO = 0.90\<close> and a true-count of at least \<open>\<lceil>0.60 * n\<rceil>\<close>, \<open>n\<close> being
  the window's fill.
\<close>

theorem idle_trigger_iff:
  assumes "\<not> in_speech st" and "length f = FRAME_BYTES"
    and "speech_prob H svc f w = (Inr p, w')"
  shows "SPEECH_TRIGGER_RATIO = 0.90
     \<and> raised (process_frame H svc st f cb w) = None
     \<and> (is_speech p \<longleftrightarrow> STRONG_SPEECH_PROB < p)
     \<and> vad_decision_buffer (after (process_frame H svc st f cb w))
         = deque_append SPEECH_BUFFER_FRAMES (vad_decision_buffer st) (is_speech p)
     \<and> (in_speech (after (process_frame H svc st f cb w)) \<longleftrightarrow>
          SPEECH_TRIGGER_RATIO
            \<le> speech_ratio (deque_append SPEECH_BUFFER_FRAMES (vad_decision_buffer st) (is_speech p))
          \<and> \<lceil>0.60 * real (length
                 (deque_append SPEECH_BUFFER_FRAMES (vad_decision_buffer st) (is_speech p)))\<rceil>
              \<le> int (count_list
                 (deque_append SPEECH_BUFFER_FRAMES (vad_decision_buffer st) (is_speech p)) True))"
proof -
  let ?dec = "deque_append SPEECH_BUFFER_FRAMES (vad_decision_buffer st) (is_speech p)"
  have eq: "process_frame H svc st f cb w = state_machine H st f (is_speech p) cb w'"
    using assms(2,3) by (rule process_frame_scored)
  have c: "SPEECH_TRIGGER_RATIO = 0.90" by (simp add: SPEECH_TRIGGER_RATIO_def)
  have r: "raised (process_frame H svc st f cb w) = None" by (simp add: eq)
  have d: "is_speech p \<longleftrightarrow> STRONG_SPEECH_PROB < p" by (simp add: is_speech_def)
  have "vad_decision_buffer (after (process_frame H svc st f cb w)) = ?dec
     \<and> (in_speech (after (process_frame H svc st f cb w)) \<longleftrightarrow>
          SPEECH_TRIGGER_RATIO \<le> speech_ratio ?dec
          \<and> \<lceil>0.60 * real (length ?dec)\<rceil> \<le> int (count_list ?dec True))"
  proof (cases "SPEECH_TRIGGER_RATIO \<le> speech_ratio ?dec")
    case True
    note t = state_machine_trigger [OF assms(1) True, of H f cb w']
    show ?thesis
      unfolding eq using t(1,2) True trigger_guard_ceiling [OF True] by simp
  next
    case False
    note s = state_machine_idle_stay [OF assms(1) False, of H f cb w']
    show ?thesis
      unfolding eq s using assms(1) False by simp
  qed
  with c r d show ?thesis by blast
qed

theorem idle_trigger_iff_witness:
  "\<not> in_speech reset \<and> length loud = FRAME_BYTES
   \<and> speech_prob host0 service0 loud 0 = (Inr 0.95, 1)
   \<and> raised (process_frame host0 service0 reset loud True 0) = None
   \<and> vad_decision_buffer (after (process_frame host0 service0 reset loud True 0)) = [True]
   \<and> in_speech (after (process_frame host0 service0 reset loud True 0))
   \<and> SPEECH_TRIGGER_RATIO \<le> speech_ratio [True]
   \<and> \<lceil>0.60 * real (length [True])\<rceil> \<le> int (count_list [True] True)
   \<and> length soft = FRAME_BYTES
   \<and> speech_prob host0 service0 soft 0 = (Inr 0.05, 1)
   \<and> vad_decision_buffer (after (process_frame host0 service0 reset soft True 0)) = [False]
   \<and> \<not> in_speech (after (process_frame host0 service0 reset soft True 0))
   \<and> \<not> SPEECH_TRIGGER_RATIO \<le> speech_ratio [False]"
proof -
  have i: "\<not> in_speech reset" by simp
  have ll: "length loud = FRAME_BYTES" by (simp add: loud_def tone_length)
  have ls: "length soft = FRAME_BYTES" by (simp add: soft_def tone_length)
  have pl: "speech_prob host0 service0 loud 0 = (Inr 0.95, 1)"
    using speech_prob_loud [of 0] by simp
  have ps: "speech_prob host0 service0 soft 0 = (Inr 0.05, 1)"
    using speech_prob_soft [of 0] by simp
  have dl: "deque_append SPEECH_BUFFER_FRAMES (vad_decision_buffer reset) (is_speech 0.95) = [True]"
    using is_speech_095 by (simp add: deque_append_short SPEECH_BUFFER_FRAMES_eq)
  have ds: "deque_append SPEECH_BUFFER_FRAMES (vad_decision_buffer reset) (is_speech 0.05) = [False]"
    using is_speech_005 by (simp add: deque_append_short SPEECH_BUFFER_FRAMES_eq)
  have rl: "SPEECH_TRIGGER_RATIO \<le> speech_ratio [True]"
    and rs: "\<not> SPEECH_TRIGGER_RATIO \<le> speech_ratio [False]"
    by (simp_all add: speech_ratio_def SPEECH_TRIGGER_RATIO_def)
  note tl = idle_trigger_iff [OF i ll pl, of True, unfolded dl]
  note ts = idle_trigger_iff [OF i ls ps, of True, unfolded ds]
  have "raised (process_frame host0 service0 reset loud True 0) = None
      \<and> vad_decision_buffer (after (process_frame host0 service0 reset loud True 0)) = [True]
      \<and> in_speech (after (process_frame host0 service0 reset loud True 0))
      \<and> \<lceil>0.60 * real (length [True])\<rceil> \<le> int (count_list [True] True)"
    using tl rl trigger_guard_ceiling [OF rl] by blast
  moreover have "vad_decision_buffer (after (process_frame host0 service0 reset soft True 0)) = [False]
      \<and> \<not> in_speech (after (process_frame host0 service0 reset soft True 0))"
    using ts rs by blast
  ultimately show ?thesis using i ll ls pl ps rl rs by (intro conjI) blast+
qed

section \<open>The hysteresis scenario, frame by frame\<close>

lemma run_frames_append_quiet:
  assumes "raised (run_frames H svc st fs cb w) = None" and "sunk (run_frames H svc st fs cb w) = []"
  shows "run_frames H svc st (fs @ gs) cb w =
         run_frames H svc (after (run_frames H svc st fs cb w)) gs cb
           (world (run_frames H svc st fs cb w))"
  unfolding run_frames_append using assms by (simp add: Let_def)

lemma ratio_hold: "0 < i \<Longrightarrow> i \<le> 11 \<Longrightarrow> SPEECH_RELEASE_RATIO \<le> speech_ratio (window 14 i)"
  by (simp add: speech_ratio_window_14 SPEECH_RELEASE_RATIO_def)

lemma ratio_low: "12 \<le> i \<Longrightarrow> speech_ratio (window 14 i) < SPEECH_RELEASE_RATIO"
  by (simp add: speech_ratio_window_14 SPEECH_RELEASE_RATIO_def)

lemma scenario_speech:
  assumes "fs \<noteq> []" and "\<forall>f\<in>set fs. scores H svc f 0.95"
  shows "raised (run_frames H svc reset fs cb w) = None \<and>
         sunk (run_frames H svc reset fs cb w) = [] \<and>
         speaking (after (run_frames H svc reset fs cb w)) (length fs) 0 (hd fs @ concat fs) []"
proof -
  from assms(1) obtain f fs' where fs: "fs = f # fs'" by (cases fs) auto
  let ?r1 = "process_frame H svc reset f cb w"
  have sc: "scores H svc f 0.95" and rest: "\<forall>f\<in>set fs'. scores H svc f 0.95"
    using assms(2) by (simp_all add: fs)
  note o = onset_step [OF sc, of cb w]
  have "raised (run_frames H svc (after ?r1) fs' cb (world ?r1)) = None \<and>
         sunk (run_frames H svc (after ?r1) fs' cb (world ?r1)) = [] \<and>
         speaking (after (run_frames H svc (after ?r1) fs' cb (world ?r1))) (1 + length fs') 0
           ((f @ f) @ concat fs') (if fs' = [] then [] else [])"
    by (rule speech_run [OF o(3) _ rest]) simp
  then show ?thesis using o(1,2) by (simp add: fs Let_def)
qed

lemma scenario_hold:
  assumes "length fs = 14" and "\<forall>f\<in>set fs. scores H svc f 0.95"
    and "\<forall>g\<in>set gs. scores H svc g 0.05" and "length gs \<le> 31"
  shows "raised (run_frames H svc reset (fs @ gs) cb w) = None \<and>
         sunk (run_frames H svc reset (fs @ gs) cb w) = [] \<and>
         speaking (after (run_frames H svc reset (fs @ gs) cb w)) 14 (length gs)
           (hd fs @ concat fs @ concat gs) (drop 11 gs)"
proof -
  let ?r1 = "run_frames H svc reset fs cb w"
  have ne: "fs \<noteq> []" using assms(1) by auto
  have s1: "raised ?r1 = None" "sunk ?r1 = []"
    "speaking (after ?r1) 14 0 (hd fs @ concat fs) []"
    using scenario_speech [OF ne assms(2), of cb w] assms(1) by simp_all
  let ?ga = "take 11 gs" and ?gb = "drop 11 gs"
  let ?r2 = "run_frames H svc (after ?r1) ?ga cb (world ?r1)"
  have ga: "\<forall>g\<in>set ?ga. scores H svc g 0.05" and gb: "\<forall>g\<in>set ?gb. scores H svc g 0.05"
    using assms(3) by (auto dest: in_set_takeD in_set_dropD)
  have ra: "\<forall>i. 0 < i \<and> i \<le> length ?ga \<longrightarrow> SPEECH_RELEASE_RATIO \<le> speech_ratio (window 14 (0 + i))"
    by (auto intro: ratio_hold)
  have s2: "raised ?r2 = None" "sunk ?r2 = []"
    "speaking (after ?r2) 14 (length ?ga) (hd fs @ concat fs @ concat ?ga) []"
    using hold_run [OF s1(3) ga ra, of cb "world ?r1"] by simp_all
  let ?r3 = "run_frames H svc (after ?r2) ?gb cb (world ?r2)"
  have rb: "\<forall>i. 0 < i \<and> i \<le> length ?gb \<longrightarrow>
              speech_ratio (window 14 (length ?ga + i)) < SPEECH_RELEASE_RATIO"
  proof (intro allI impI)
    fix i assume i: "0 < i \<and> i \<le> length ?gb"
    then have "11 < length gs" by auto
    then have "length ?ga = 11" by simp
    with i show "speech_ratio (window 14 (length ?ga + i)) < SPEECH_RELEASE_RATIO"
      by (intro ratio_low) simp
  qed
  have room: "length ([] :: bytes list) + length ?gb \<le> 20" using assms(4) by simp
  have s3: "raised ?r3 = None" "sunk ?r3 = []"
    "speaking (after ?r3) 14 (length ?ga + length ?gb)
       ((hd fs @ concat fs @ concat ?ga) @ concat ?gb) ([] @ ?gb)"
    using countdown_run [OF s2(3) gb rb room, of cb "world ?r2"] by simp_all
  have cat: "concat ?ga @ concat ?gb = concat gs"
    by (metis append_take_drop_id concat_append)
  have len: "min (length gs) 11 + (length gs - 11) = length gs" by simp
  have "run_frames H svc reset (fs @ gs) cb w = run_frames H svc reset (fs @ ?ga @ ?gb) cb w"
    by simp
  also have "\<dots> = run_frames H svc (after ?r1) (?ga @ ?gb) cb (world ?r1)"
    by (rule run_frames_append_quiet [OF s1(1,2)])
  also have "\<dots> = ?r3"
    by (rule run_frames_append_quiet [OF s2(1,2)])
  finally have eq: "run_frames H svc reset (fs @ gs) cb w = ?r3" .
  show ?thesis
    unfolding eq using s3 cat by (simp add: len)
qed

lemma length_concat_frames:
  "\<forall>f\<in>set fs. length f = FRAME_BYTES \<Longrightarrow> length (concat fs) = length fs * FRAME_BYTES"
  by (induction fs) simp_all

lemma scores_length: "scores H svc f p \<Longrightarrow> length f = FRAME_BYTES"
  by (simp add: scores_def)

lemma scenario_final:
  assumes "length fs = 14" and "\<forall>f\<in>set fs. scores H svc f 0.95"
    and "\<forall>g\<in>set gs. scores H svc g 0.05" and "length gs = 32"
  shows "raised (run_frames H svc reset (fs @ gs) cb w) = None \<and>
         sunk (run_frames H svc reset (fs @ gs) cb w)
           = (if cb then [hd fs @ concat fs @ concat gs] else []) \<and>
         after (run_frames H svc reset (fs @ gs) cb w) = reset \<and>
         length (hd fs @ concat fs @ concat gs) = 48128"
proof -
  have gne: "gs \<noteq> []" using assms(4) by auto
  let ?gs' = "butlast gs" and ?g = "last gs"
  let ?r1 = "run_frames H svc reset (fs @ ?gs') cb w"
  have gs: "gs = ?gs' @ [?g]" using gne by simp
  have g': "\<forall>g\<in>set ?gs'. scores H svc g 0.05" using assms(3) by (auto dest: in_set_butlastD)
  have g: "scores H svc ?g 0.05" using assms(3) gne by simp
  have l': "length ?gs' \<le> 31" using assms(4) by simp
  have s1: "raised ?r1 = None" "sunk ?r1 = []"
    "speaking (after ?r1) 14 31 (hd fs @ concat fs @ concat ?gs') (drop 11 ?gs')"
    using scenario_hold [OF assms(1,2) g' l', of cb w] assms(4) by simp_all
  have low: "speech_ratio (window 14 (Suc 31)) < SPEECH_RELEASE_RATIO"
    by (rule ratio_low) simp
  have full: "length (drop 11 ?gs') = 20" using assms(4) by simp
  note f = finalize_step [OF s1(3) g low full, of cb "world ?r1"]
  have hd: "hd fs \<in> set fs" using assms(1) by (cases fs) auto
  have lens: "length (hd fs) = FRAME_BYTES" "\<forall>f\<in>set fs. length f = FRAME_BYTES"
    "\<forall>g\<in>set gs. length g = FRAME_BYTES"
    using assms(2,3) hd by (auto dest: scores_length)
  have total: "length (hd fs @ concat fs @ concat gs) = 48128"
    using lens assms(1,4) by (simp add: length_concat_frames FRAME_BYTES_eq)
  have cat: "(hd fs @ concat fs @ concat ?gs') @ ?g = hd fs @ concat fs @ concat gs"
    by (subst (3) gs) simp
  have "run_frames H svc reset (fs @ gs) cb w = run_frames H svc reset ((fs @ ?gs') @ [?g]) cb w"
    using gs by simp
  also have "\<dots> = run_frames H svc (after ?r1) [?g] cb (world ?r1)"
    by (rule run_frames_append_quiet [OF s1(1,2)])
  finally have eq: "run_frames H svc reset (fs @ gs) cb w
      = run_frames H svc (after ?r1) [?g] cb (world ?r1)" .
  show ?thesis
    unfolding eq using f total
    by (simp add: Let_def cat min_utterance_bytes_eq del: append_assoc)
qed

section \<open>The hysteresis scenario\<close>

lemma feed_frames:
  assumes "vad_model_loaded svc" and "connections svc cid = None" and "chunks \<noteq> []"
    and "\<forall>c\<in>set chunks. length c = FRAME_BYTES"
  shows "feed H svc cid chunks cb w =
     \<lparr>after = svc\<lparr>connections := (connections svc)(cid \<mapsto> after (run_frames H svc reset chunks cb w))\<rparr>,
      world = world (run_frames H svc reset chunks cb w),
      sunk = sunk (run_frames H svc reset chunks cb w),
      raised = raised (run_frames H svc reset chunks cb w)\<rparr>"
proof -
  from assms(3) obtain c cs where cs: "chunks = c # cs" by (cases chunks) auto
  have fr: "frames_of (concat chunks) = chunks" and re: "remainder_of (concat chunks) = []"
    using frames_of_concat_frames [OF assms(4), of "[]"]
      remainder_of_concat_frames [OF assms(4), of "[]"]
    by (simp_all add: frames_of_nil remainder_of_nil)
  have pf: "partial_frame (after (run_frames H svc reset chunks cb w)) = []"
    by (rule run_frames_partial) simp
  have "feed H svc cid chunks cb w = process_audio_chunk H svc cid (concat chunks) cb w"
    unfolding cs by (rule feed_concat [OF assms(1)])
  also have "\<dots> = \<lparr>after = svc\<lparr>connections := (connections svc)(cid \<mapsto> after (run_frames H svc reset chunks cb w))\<rparr>,
      world = world (run_frames H svc reset chunks cb w),
      sunk = sunk (run_frames H svc reset chunks cb w),
      raised = raised (run_frames H svc reset chunks cb w)\<rparr>"
    unfolding process_audio_chunk_frames [OF assms(1)] Let_def get_state_fresh [OF assms(2)]
    by (simp add: fr re state_partial_nil [OF pf])
  finally show ?thesis .
qed

lemma feed_speech:
  assumes "vad_model_loaded svc" and "connections svc cid = None"
    and "fs \<noteq> []" and "\<forall>f\<in>set fs. scores H svc f 0.95"
  shows "raised (feed H svc cid fs cb w) = None \<and> sunk (feed H svc cid fs cb w) = [] \<and>
         map_option in_speech (connections (after (feed H svc cid fs cb w)) cid) = Some True"
proof -
  have len: "\<forall>c\<in>set fs. length c = FRAME_BYTES" using assms(4) by (auto dest: scores_length)
  show ?thesis
    unfolding feed_frames [OF assms(1,2,3) len]
    using scenario_speech [OF assms(3,4), of cb w] by (simp add: speaking_def)
qed

lemma feed_hold:
  assumes "vad_model_loaded svc" and "connections svc cid = None"
    and "length fs = 14" and "\<forall>f\<in>set fs. scores H svc f 0.95"
    and "\<forall>g\<in>set gs. scores H svc g 0.05" and "length gs \<le> 31"
  shows "raised (feed H svc cid (fs @ gs) cb w) = None \<and>
         sunk (feed H svc cid (fs @ gs) cb w) = [] \<and>
         map_option in_speech (connections (after (feed H svc cid (fs @ gs) cb w)) cid) = Some True \<and>
         map_option trailing_silence_buffer (connections (after (feed H svc cid (fs @ gs) cb w)) cid)
           = Some (drop 11 gs)"
proof -
  have len: "\<forall>c\<in>set (fs @ gs). length c = FRAME_BYTES"
    using assms(4,5) by (auto dest: scores_length)
  have ne: "fs @ gs \<noteq> []" using assms(3) by auto
  show ?thesis
    unfolding feed_frames [OF assms(1,2) ne len]
    using scenario_hold [OF assms(3,4,5,6), of cb w] by (simp add: speaking_def)
qed

lemma feed_final:
  assumes "vad_model_loaded svc" and "connections svc cid = None"
    and "length fs = 14" and "\<forall>f\<in>set fs. scores H svc f 0.95"
    and "\<forall>g\<in>set gs. scores H svc g 0.05" and "length gs = 32"
  shows "raised (feed H svc cid (fs @ gs) cb w) = None \<and>
         sunk (feed H svc cid (fs @ gs) cb w) = (if cb then [hd fs @ concat fs @ concat gs] else []) \<and>
         connections (after (feed H svc cid (fs @ gs) cb w)) cid = Some reset \<and>
         length (hd fs @ concat fs @ concat gs) = 48128"
proof -
  have len: "\<forall>c\<in>set (fs @ gs). length c = FRAME_BYTES"
    using assms(4,5) by (auto dest: scores_length)
  have ne: "fs @ gs \<noteq> []" using assms(3) by auto
  show ?thesis
    unfolding feed_frames [OF assms(1,2) ne len]
    using scenario_final [OF assms(3,4,5,6), of cb w] by simp
qed

text \<open>
  Claim C1, as the specification states it, fails twice. The ratio is taken over the
  window's current fill, so the first speech frame (ratio 1/1) already starts Speaking:
  after 13 frames the machine is not Idle. And the 21 frames needed in the
  trailing-silence ring are only collected while the ratio is below 0.25, which the 14
  speech decisions in the window delay: after 14 speech frames and 21 frames of
  probability 0.05 the machine is still Speaking and nothing was emitted.
\<close>

theorem hysteresis_counterexample:
  "map_option in_speech
     (connections (after (feed host0 service0 ''c'' (replicate 13 loud) True 0)) ''c'') = Some True
   \<and> map_option in_speech
       (connections (after (feed host0 service0 ''c'' (replicate 14 loud @ replicate 21 soft) True 0)) ''c'')
     = Some True
   \<and> sunk (feed host0 service0 ''c'' (replicate 14 loud @ replicate 21 soft) True 0) = []"
proof -
  have l: "vad_model_loaded service0" and c: "connections service0 ''c'' = None" by simp_all
  have sl: "scores host0 service0 loud 0.95" by (rule scores_loud) simp
  have ss: "scores host0 service0 soft 0.05" by (rule scores_soft) simp
  have a: "\<forall>f\<in>set (replicate n loud). scores host0 service0 f 0.95" for n using sl by simp
  have b: "\<forall>f\<in>set (replicate n soft). scores host0 service0 f 0.05" for n using ss by simp
  have "replicate 13 loud \<noteq> []" by simp
  from feed_speech [OF l c this a, of True 0]
    feed_hold [OF l c _ a b, of 14 21 True 0]
  show ?thesis by simp
qed

text \<open>
  Claim C1, amended. With \<open>SAMPLE_RATE = 16000\<close>, \<open>FRAME_DURATION_MS = 32\<close>,
  \<open>SPEECH_BUFFER_FRAMES = 15\<close>, \<open>SPEECH_TRIGGER_RATIO = 0.90\<close> and
  \<open>TRAILING_SILENCE_FRAMES = 21\<close>, on a fresh connection: of 14 consecutive complete
  frames of probability 0.95 the first already triggers Idle-to-Speaking, and the
  machine is Speaking after each of them; of the frames of probability 0.05 fed next,
  the first 31 leave the machine Speaking and emit nothing (the trailing-silence ring
  starts to fill at the 12th, when the window ratio first falls below 0.25), and the
  32nd resets the state to Idle and hands the callback one utterance, the accumulation
  of 47 frames (the first frame twice, the other 13, the 32 trailing ones), 48128 bytes,
  which meets the minimum.
\<close>

theorem hysteresis_scenario:
  assumes "vad_model_loaded svc" and "connections svc cid = None"
    and "length fs = 14" and "\<forall>f\<in>set fs. scores H svc f 0.95"
    and "length gs = 32" and "\<forall>g\<in>set gs. scores H svc g 0.05"
  shows "SAMPLE_RATE = 16000 \<and> FRAME_DURATION_MS = 32 \<and> SPEECH_BUFFER_FRAMES = 15
       \<and> SPEECH_TRIGGER_RATIO = 0.90 \<and> TRAILING_SILENCE_FRAMES = 21
       \<and> (\<forall>k. 0 < k \<and> k \<le> 14 \<longrightarrow>
             raised (feed H svc cid (take k fs) cb w) = None
           \<and> sunk (feed H svc cid (take k fs) cb w) = []
           \<and> map_option in_speech (connections (after (feed H svc cid (take k fs) cb w)) cid)
               = Some True)
       \<and> (\<forall>k. k < 32 \<longrightarrow>
             raised (feed H svc cid (fs @ take k gs) cb w) = None
           \<and> sunk (feed H svc cid (fs @ take k gs) cb w) = []
           \<and> map_option in_speech (connections (after (feed H svc cid (fs @ take k gs) cb w)) cid)
               = Some True
           \<and> map_option (length \<circ> trailing_silence_buffer)
                (connections (after (feed H svc cid (fs @ take k gs) cb w)) cid) = Some (k - 11))
       \<and> raised (feed H svc cid (fs @ gs) cb w) = None
       \<and> connections (after (feed H svc cid (fs @ gs) cb w)) cid = Some reset
       \<and> sunk (feed H svc cid (fs @ gs) cb w) = (if cb then [hd fs @ concat fs @ concat gs] else [])
       \<and> length (hd fs @ concat fs @ concat gs) = 48128
       \<and> min_utterance_bytes \<le> 48128"
proof -
  have constants: "SAMPLE_RATE = 16000 \<and> FRAME_DURATION_MS = 32 \<and> SPEECH_BUFFER_FRAMES = 15
       \<and> SPEECH_TRIGGER_RATIO = 0.90 \<and> TRAILING_SILENCE_FRAMES = 21"
    by (simp add: SAMPLE_RATE_def FRAME_DURATION_MS_def SPEECH_BUFFER_FRAMES_eq
        SPEECH_TRIGGER_RATIO_def TRAILING_SILENCE_FRAMES_eq)
  have speech: "raised (feed H svc cid (take k fs) cb w) = None
           \<and> sunk (feed H svc cid (take k fs) cb w) = []
           \<and> map_option in_speech (connections (after (feed H svc cid (take k fs) cb w)) cid)
               = Some True" if "0 < k \<and> k \<le> 14" for k
  proof -
    have ne: "take k fs \<noteq> []" using that assms(3) by auto
    have sc: "\<forall>f\<in>set (take k fs). scores H svc f 0.95"
      using assms(4) by (auto dest: in_set_takeD)
    show ?thesis by (rule feed_speech [OF assms(1,2) ne sc])
  qed
  have hold: "raised (feed H svc cid (fs @ take k gs) cb w) = None
           \<and> sunk (feed H svc cid (fs @ take k gs) cb w) = []
           \<and> map_option in_speech (connections (after (feed H svc cid (fs @ take k gs) cb w)) cid)
               = Some True
           \<and> map_option (length \<circ> trailing_silence_buffer)
                (connections (after (feed H svc cid (fs @ take k gs) cb w)) cid) = Some (k - 11)"
    if "k < 32" for k
  proof -
    have sc: "\<forall>g\<in>set (take k gs). scores H svc g 0.05"
      using assms(6) by (auto dest: in_set_takeD)
    have le: "length (take k gs) \<le> 31" using that assms(5) by simp
    have lk: "length (drop 11 (take k gs)) = k - 11" using that assms(5) by simp
    from feed_hold [OF assms(1,2,3,4) sc le, of cb w] lk show ?thesis
      by (auto simp: option.map_comp [symmetric] simp del: length_drop)
  qed
  note final = feed_final [OF assms(1,2,3,4,6,5), of cb w]
  show ?thesis
    using constants speech hold final by (simp add: min_utterance_bytes_eq)
qed

theorem hysteresis_scenario_witness:
  "vad_model_loaded service0 \<and> connections service0 ''c'' = None
   \<and> length (replicate 14 loud) = 14 \<and> scores host0 service0 loud 0.95
   \<and> length (replicate 32 soft) = 32 \<and> scores host0 service0 soft 0.05
   \<and> map_option in_speech (connections (after (feed host0 service0 ''c'' [loud] True 0)) ''c'')
       = Some True
   \<and> map_option in_speech
       (connections (after (feed host0 service0 ''c'' (replicate 14 loud @ replicate 31 soft) True 0)) ''c'')
       = Some True
   \<and> sunk (feed host0 service0 ''c'' (replicate 14 loud @ replicate 31 soft) True 0) = []
   \<and> connections (after (feed host0 service0 ''c'' (replicate 14 loud @ replicate 32 soft) True 0)) ''c''
       = Some reset
   \<and> sunk (feed host0 service0 ''c'' (replicate 14 loud @ replicate 32 soft) True 0)
       = [loud @ concat (replicate 14 loud) @ concat (replicate 32 soft)]"
proof -
  have l: "vad_model_loaded service0" and c: "connections service0 ''c'' = None" by simp_all
  have sl: "scores host0 service0 loud 0.95" by (rule scores_loud) simp
  have ss: "scores host0 service0 soft 0.05" by (rule scores_soft) simp
  have a: "\<forall>f\<in>set (replicate 14 loud). scores host0 service0 f 0.95" using sl by simp
  have b: "\<forall>f\<in>set (replicate 32 soft). scores host0 service0 f 0.05" using ss by simp
  have la: "length (replicate 14 loud) = 14" and lb: "length (replicate 32 soft) = 32" by simp_all
  note t = hysteresis_scenario [OF l c la a lb b, of True 0]
  note c2 = conjunct2
  note sp = t [THEN c2, THEN c2, THEN c2, THEN c2, THEN c2, THEN conjunct1]
  note ho = t [THEN c2, THEN c2, THEN c2, THEN c2, THEN c2, THEN c2, THEN conjunct1]
  note fi = t [THEN c2, THEN c2, THEN c2, THEN c2, THEN c2, THEN c2, THEN c2]
  have k1: "map_option in_speech (connections (after (feed host0 service0 ''c'' (take 1 (replicate 14 loud)) True 0)) ''c'')
       = Some True"
    using sp [rule_format, of 1] by simp
  have k31: "map_option in_speech
       (connections (after (feed host0 service0 ''c'' (replicate 14 loud @ take 31 (replicate 32 soft)) True 0)) ''c'')
       = Some True
     \<and> sunk (feed host0 service0 ''c'' (replicate 14 loud @ take 31 (replicate 32 soft)) True 0) = []"
    using ho [rule_format, of 31] by simp
  have hd: "hd (replicate 14 loud) = loud" by simp
  have fin: "connections (after (feed host0 service0 ''c'' (replicate 14 loud @ replicate 32 soft) True 0)) ''c''
       = Some reset
   \<and> sunk (feed host0 service0 ''c'' (replicate 14 loud @ replicate 32 soft) True 0)
       = [loud @ concat (replicate 14 loud) @ concat (replicate 32 soft)]"
    using fi unfolding hd by simp
  have t1: "take 1 (replicate 14 loud) = [loud]"
    by (simp add: take_Suc_conv_app_nth)
  have t31: "take 31 (replicate 32 soft) = replicate 31 soft" by simp
  show ?thesis
    using l c la lb sl ss k1 [unfolded t1] k31 [unfolded t31] fin by simp
qed

section \<open>The onset frame\<close>





section \<open>Silence\<close>

lemma deque_append_set: "set (deque_append m d x) \<subseteq> insert x (set d)"
  by (cases d) (auto simp: deque_append_def dest: list.set_sel(2))

lemma quiet_step:
  assumes "\<not> in_speech st" and "True \<notin> set (vad_decision_buffer st)"
    and "length f = FRAME_BYTES" and "gated H f"
  shows "raised (process_frame H svc st f cb w) = None"
    and "sunk (process_frame H svc st f cb w) = []"
    and "world (process_frame H svc st f cb w) = w"
    and "\<not> in_speech (after (process_frame H svc st f cb w))"
    and "True \<notin> set (vad_decision_buffer (after (process_frame H svc st f cb w)))"
proof -
  let ?dec = "deque_append SPEECH_BUFFER_FRAMES (vad_decision_buffer st) False"
  have none: "True \<notin> set ?dec"
    using assms(2) deque_append_set [of SPEECH_BUFFER_FRAMES "vad_decision_buffer st" False]
    by auto
  then have "count_list ?dec True = 0" by simp
  then have "speech_ratio ?dec = 0" by (simp add: speech_ratio_def)
  then have stay: "\<not> SPEECH_TRIGGER_RATIO \<le> speech_ratio ?dec"
    by (simp add: SPEECH_TRIGGER_RATIO_def)
  have eq: "process_frame H svc st f cb w =
      returned (st\<lparr>vad_decision_buffer := ?dec,
                   pre_speech_buffer := deque_append PRE_SPEECH_FRAMES (pre_speech_buffer st) f\<rparr>) w []"
    unfolding process_frame_gated [OF assms(3,4)] by (rule state_machine_idle_stay [OF assms(1) stay])
  show "raised (process_frame H svc st f cb w) = None"
    and "sunk (process_frame H svc st f cb w) = []"
    and "world (process_frame H svc st f cb w) = w"
    and "\<not> in_speech (after (process_frame H svc st f cb w))"
    and "True \<notin> set (vad_decision_buffer (after (process_frame H svc st f cb w)))"
    using assms(1) none by (simp_all add: eq)
qed

lemma quiet_run:
  assumes "\<not> in_speech st" and "True \<notin> set (vad_decision_buffer st)"
    and "\<forall>f\<in>set fs. length f = FRAME_BYTES \<and> gated H f"
  shows "raised (run_frames H svc st fs cb w) = None \<and>
         sunk (run_frames H svc st fs cb w) = [] \<and>
         world (run_frames H svc st fs cb w) = w \<and>
         \<not> in_speech (after (run_frames H svc st fs cb w)) \<and>
         True \<notin> set (vad_decision_buffer (after (run_frames H svc st fs cb w)))"
  using assms
proof (induction fs arbitrary: st)
  case Nil
  then show ?case by simp
next
  case (Cons f fs)
  let ?r1 = "process_frame H svc st f cb w"
  have f: "length f = FRAME_BYTES" "gated H f"
    using Cons.prems(3) by simp_all
  note s = quiet_step [OF Cons.prems(1,2) f, of svc cb w]
  have rest: "\<forall>f\<in>set fs. length f = FRAME_BYTES \<and> gated H f"
    using Cons.prems(3) by simp
  from Cons.IH [OF s(4,5) rest] s(1,2,3) show ?case by (simp add: Let_def)
qed

lemma feed_nonempty_frames:
  assumes "vad_model_loaded svc" and "connections svc cid = None" and "chunks \<noteq> []"
  shows "feed H svc cid chunks cb w =
     (let r = run_frames H svc reset (frames_of (concat chunks)) cb w;
          final = (if raised r = None then (after r)\<lparr>partial_frame := remainder_of (concat chunks)\<rparr>
                   else after r)
      in \<lparr>after = svc\<lparr>connections := (connections svc)(cid \<mapsto> final)\<rparr>,
          world = world r, sunk = sunk r, raised = raised r\<rparr>)"
proof -
  from assms(3) obtain c cs where cs: "chunks = c # cs" by (cases chunks) auto
  have "feed H svc cid chunks cb w = process_audio_chunk H svc cid (concat chunks) cb w"
    unfolding cs by (rule feed_concat [OF assms(1)])
  then show ?thesis
    by (simp add: process_audio_chunk_frames [OF assms(1)] get_state_fresh [OF assms(2)] Let_def)
qed

lemma frames_of_take_subset:
  "set (frames_of (concat (take k chunks))) \<subseteq> set (frames_of (concat chunks))"
proof -
  have "concat chunks = concat (take k chunks) @ concat (drop k chunks)"
    by (metis append_take_drop_id concat_append)
  then show ?thesis
    using frames_of_append [of "concat (take k chunks)" "concat (drop k chunks)"] by simp
qed

lemma sqrt_hum_below_gate: "rms_exact (audio_f32 hum) < RMS_NOISE_GATE"
  and sqrt_hum_rev_below_gate: "rms_exact (audio_f32 hum_rev) < RMS_NOISE_GATE"
  using sqrt_hum_below by (simp_all add: rms_exact_hum rms_exact_hum_rev RMS_NOISE_GATE_def)

text \<open>
  Claim C6, as the specification states it, fails at the edge of the gate. The frames
  \<open>hum\<close> and \<open>hum_rev\<close> have a root mean square below \<open>RMS_NOISE_GATE = 0.01\<close>, both
  exactly and as the float32 that numpy computes, which is \<open>10737418 / 2^30\<close>, the
  float32 nearest to 0.01. NumPy 2 evaluates \<^verbatim>\<open>rms < RMS_NOISE_GATE\<close> in float32, against
  that same number, so the test is false and the frames go to the model. With a model
  that scores \<open>hum\<close> 0.95 and \<open>hum_rev\<close> 0.05, a fresh connection fed 14 frames \<open>hum\<close> is
  Speaking, and fed 32 frames \<open>hum_rev\<close> after them it emits an utterance.
\<close>

theorem silence_counterexample:
  "rms host0 (audio_f32 hum) < RMS_NOISE_GATE \<and> rms host0 (audio_f32 hum_rev) < RMS_NOISE_GATE
   \<and> rms_exact (audio_f32 hum) < RMS_NOISE_GATE \<and> rms_exact (audio_f32 hum_rev) < RMS_NOISE_GATE
   \<and> vad_model_loaded service_hum \<and> connections service_hum ''c'' = None
   \<and> frames_of (concat (replicate 14 hum @ replicate 32 hum_rev))
       = replicate 14 hum @ replicate 32 hum_rev
   \<and> map_option in_speech
         (connections (after (feed host0 service_hum ''c'' (replicate 14 hum) True 0)) ''c'')
       = Some True
   \<and> sunk (feed host0 service_hum ''c'' (replicate 14 hum @ replicate 32 hum_rev) True 0)
       = [hum @ concat (replicate 14 hum) @ concat (replicate 32 hum_rev)]
   \<and> length (hum @ concat (replicate 14 hum) @ concat (replicate 32 hum_rev)) = 48128"
proof -
  have l: "vad_model_loaded service_hum" and c: "connections service_hum ''c'' = None"
    by simp_all
  have r: "rms host0 (audio_f32 hum) < RMS_NOISE_GATE"
    and r': "rms host0 (audio_f32 hum_rev) < RMS_NOISE_GATE"
    by (simp_all add: rms_hum rms_hum_rev RMS_NOISE_GATE_def)
  have a: "\<forall>f\<in>set (replicate n hum). scores host0 service_hum f 0.95" for n
    using scores_hum by simp
  have b: "\<forall>f\<in>set (replicate n hum_rev). scores host0 service_hum f 0.05" for n
    using scores_hum_rev by simp
  have len: "\<forall>f\<in>set (replicate 14 hum @ replicate 32 hum_rev). length f = FRAME_BYTES"
    by (auto simp: hum_length hum_rev_length)
  have fr: "frames_of (concat (replicate 14 hum @ replicate 32 hum_rev))
       = replicate 14 hum @ replicate 32 hum_rev"
    using frames_of_concat_frames [OF len, of "[]"] by (simp add: frames_of_nil)
  have ne: "replicate 14 hum \<noteq> []" by simp
  have sp: "map_option in_speech
         (connections (after (feed host0 service_hum ''c'' (replicate 14 hum) True 0)) ''c'')
       = Some True"
    using feed_speech [OF l c ne a, of True 0] by simp
  have fin: "sunk (feed host0 service_hum ''c'' (replicate 14 hum @ replicate 32 hum_rev) True 0)
       = [hum @ concat (replicate 14 hum) @ concat (replicate 32 hum_rev)]
     \<and> length (hum @ concat (replicate 14 hum) @ concat (replicate 32 hum_rev)) = 48128"
    using feed_final [OF l c _ a b, of 14 32 True 0] by simp
  from r r' sqrt_hum_below_gate sqrt_hum_rev_below_gate l c fr sp fin show ?thesis
    by (intro conjI) simp_all
qed

text \<open>
  Claim C6, amended (silence never emits). With the model loaded, on a fresh connection,
  if for every complete frame of the input stream the noise-gate test of the code holds,
  that is, numpy's evaluation of \<^verbatim>\<open>rms < RMS_NOISE_GATE\<close> on the float32 RMS (under
  NumPy 2 the RMS is below the float32 nearest to 0.01), then however the stream is cut
  into chunks and however long it is, after every call nothing has been raised, the
  callback has not been invoked, the connection is not Speaking, and the world is
  untouched (the model was never called).
\<close>

theorem silence_never_emits:
  assumes "vad_model_loaded svc" and "connections svc cid = None"
    and "\<forall>f\<in>set (frames_of (concat chunks)). gated H f"
  shows "raised (feed H svc cid (take k chunks) cb w) = None
       \<and> sunk (feed H svc cid (take k chunks) cb w) = []
       \<and> world (feed H svc cid (take k chunks) cb w) = w
       \<and> map_option in_speech (connections (after (feed H svc cid (take k chunks) cb w)) cid)
           \<noteq> Some True"
proof (cases "take k chunks = []")
  case True
  have "feed H svc cid (take k chunks) cb w = returned svc w []"
    unfolding True by simp
  then show ?thesis using assms(2) by simp
next
  case False
  let ?fs = "frames_of (concat (take k chunks))"
  have q: "\<forall>f\<in>set ?fs. length f = FRAME_BYTES \<and> gated H f"
    using assms(3) frames_of_take_subset [of k chunks] by (auto dest: frames_of_length)
  have i: "\<not> in_speech reset" and d: "True \<notin> set (vad_decision_buffer reset)" by simp_all
  from quiet_run [OF i d q, of svc cb w] show ?thesis
    unfolding feed_nonempty_frames [OF assms(1,2) False] Let_def by simp
qed

theorem silence_never_emits_witness:
  "vad_model_loaded service0 \<and> connections service0 ''c'' = None
   \<and> frames_of (concat [take 100 silence, drop 100 silence @ [1, 2, 3]]) = [silence]
   \<and> gated host0 silence
   \<and> raised (feed host0 service0 ''c'' [take 100 silence, drop 100 silence @ [1, 2, 3]] True 0) = None
   \<and> sunk (feed host0 service0 ''c'' [take 100 silence, drop 100 silence @ [1, 2, 3]] True 0) = []
   \<and> world (feed host0 service0 ''c'' [take 100 silence, drop 100 silence @ [1, 2, 3]] True 0) = 0
   \<and> map_option in_speech
         (connections
            (after (feed host0 service0 ''c'' [take 100 silence, drop 100 silence @ [1, 2, 3]] True 0))
            ''c'')
       \<noteq> Some True"
proof -
  let ?chunks = "[take 100 silence, drop 100 silence @ [1, 2, 3]]"
  have l: "vad_model_loaded service0" and c: "connections service0 ''c'' = None" by simp_all
  have cat: "concat ?chunks = silence @ [1, 2, 3]"
    by (simp add: append_assoc [symmetric] del: append_assoc)
  have fr: "frames_of (concat ?chunks) = [silence]"
    unfolding cat
    by (simp add: frames_of_frame_append silence_length frames_of_short FRAME_BYTES_eq)
  have q: "\<forall>f\<in>set (frames_of (concat ?chunks)). gated host0 f"
    unfolding fr using gated_silence by simp
  have t: "take 2 ?chunks = ?chunks" by simp
  from silence_never_emits [OF l c q, of 2 True 0] l c fr gated_silence
  show ?thesis unfolding t by simp
qed

section \<open>Minimum utterance length\<close>

lemma process_audio_chunk_sunk_length:
  assumes "vad_model_loaded svc" and "u \<in> set (sunk (process_audio_chunk H svc cid audio cb w))"
  shows "min_utterance_bytes \<le> length u"
  using assms(2) unfolding process_audio_chunk_frames [OF assms(1)] Let_def
  by (auto dest: run_frames_sunk_length)

lemma feed_sunk_length:
  "vad_model_loaded svc \<Longrightarrow> u \<in> set (sunk (feed H svc cid chunks cb w)) \<Longrightarrow>
   min_utterance_bytes \<le> length u"
proof (induction chunks arbitrary: svc w)
  case Nil
  then show ?case by simp
next
  case (Cons c cs)
  let ?r1 = "process_audio_chunk H svc cid c cb w"
  show ?case
  proof (cases "raised ?r1 = None")
    case False
    with Cons.prems show ?thesis
      by (auto simp: Let_def dest: process_audio_chunk_sunk_length)
  next
    case True
    with Cons.prems(2) have "u \<in> set (sunk ?r1) \<or>
        u \<in> set (sunk (feed H (after ?r1) cid cs cb (world ?r1)))"
      by (auto simp: Let_def)
    then show ?thesis
    proof
      assume "u \<in> set (sunk ?r1)"
      with Cons.prems(1) show ?thesis by (rule process_audio_chunk_sunk_length)
    next
      assume "u \<in> set (sunk (feed H (after ?r1) cid cs cb (world ?r1)))"
      moreover have "vad_model_loaded (after ?r1)" using Cons.prems(1) by simp
      ultimately show ?thesis by (rule Cons.IH [rotated])
    qed
  qed
qed

lemma speech_ratio_window_1:
  "0 < j \<Longrightarrow> speech_ratio (window 1 j) = (if j \<le> 14 then 1 / real (1 + j) else 0)"
  by (simp add: speech_ratio_def count_window length_window min_def)

lemma ratio_hold1: "0 < i \<Longrightarrow> i \<le> 3 \<Longrightarrow> SPEECH_RELEASE_RATIO \<le> speech_ratio (window 1 i)"
  unfolding speech_ratio_window_1 by (simp add: SPEECH_RELEASE_RATIO_def field_simps)

lemma ratio_low1: "4 \<le> i \<Longrightarrow> speech_ratio (window 1 i) < SPEECH_RELEASE_RATIO"
proof -
  assume "4 \<le> i"
  then have "0 < i" by simp
  then show ?thesis
    unfolding speech_ratio_window_1 [OF \<open>0 < i\<close>] using \<open>4 \<le> i\<close>
    by (simp add: SPEECH_RELEASE_RATIO_def field_simps)
qed

lemma soft_run:
  assumes sp: "speaking st a 0 sb []"
    and gs: "\<forall>g\<in>set gs. scores H svc g 0.05"
    and hold: "\<And>i. 0 < i \<Longrightarrow> i \<le> t \<Longrightarrow> SPEECH_RELEASE_RATIO \<le> speech_ratio (window a i)"
    and low: "\<And>i. t < i \<Longrightarrow> speech_ratio (window a i) < SPEECH_RELEASE_RATIO"
    and len: "length gs \<le> t + 20"
  shows "raised (run_frames H svc st gs cb w) = None \<and>
         sunk (run_frames H svc st gs cb w) = [] \<and>
         speaking (after (run_frames H svc st gs cb w)) a (length gs) (sb @ concat gs) (drop t gs)"
proof -
  let ?ga = "take t gs" and ?gb = "drop t gs"
  let ?r2 = "run_frames H svc st ?ga cb w"
  have ga: "\<forall>g\<in>set ?ga. scores H svc g 0.05" and gb: "\<forall>g\<in>set ?gb. scores H svc g 0.05"
    using gs by (auto dest: in_set_takeD in_set_dropD)
  have ra: "\<forall>i. 0 < i \<and> i \<le> length ?ga \<longrightarrow> SPEECH_RELEASE_RATIO \<le> speech_ratio (window a (0 + i))"
    by (auto intro: hold)
  have s2: "raised ?r2 = None" "sunk ?r2 = []"
    "speaking (after ?r2) a (length ?ga) (sb @ concat ?ga) []"
    using hold_run [OF sp ga ra, of cb w] by simp_all
  let ?r3 = "run_frames H svc (after ?r2) ?gb cb (world ?r2)"
  have rb: "\<forall>i. 0 < i \<and> i \<le> length ?gb \<longrightarrow>
              speech_ratio (window a (length ?ga + i)) < SPEECH_RELEASE_RATIO"
  proof (intro allI impI)
    fix i assume i: "0 < i \<and> i \<le> length ?gb"
    then have "t < length gs" by auto
    then have "length ?ga = t" by simp
    with i show "speech_ratio (window a (length ?ga + i)) < SPEECH_RELEASE_RATIO"
      by (intro low) simp
  qed
  have room: "length ([] :: bytes list) + length ?gb \<le> 20" using len by simp
  have s3: "raised ?r3 = None" "sunk ?r3 = []"
    "speaking (after ?r3) a (length ?ga + length ?gb) ((sb @ concat ?ga) @ concat ?gb) ([] @ ?gb)"
    using countdown_run [OF s2(3) gb rb room, of cb "world ?r2"] by simp_all
  have cat: "concat ?ga @ concat ?gb = concat gs"
    by (metis append_take_drop_id concat_append)
  have l: "min (length gs) t + (length gs - t) = length gs" by simp
  have "run_frames H svc st gs cb w = run_frames H svc st (?ga @ ?gb) cb w" by simp
  also have "\<dots> = ?r3" by (rule run_frames_append_quiet [OF s2(1,2)])
  finally have eq: "run_frames H svc st gs cb w = ?r3" .
  show ?thesis unfolding eq using s3 cat by (simp add: l)
qed

lemma short_hold:
  assumes "scores H svc f 0.95" and "\<forall>g\<in>set gs. scores H svc g 0.05" and "length gs \<le> 23"
  shows "raised (run_frames H svc reset (f # gs) cb w) = None \<and>
         sunk (run_frames H svc reset (f # gs) cb w) = [] \<and>
         speaking (after (run_frames H svc reset (f # gs) cb w)) 1 (length gs)
           (f @ f @ concat gs) (drop 3 gs)"
proof -
  let ?r1 = "process_frame H svc reset f cb w"
  note o = onset_step [OF assms(1), of cb w]
  have len: "length gs \<le> 3 + 20" using assms(3) by simp
  have "raised (run_frames H svc (after ?r1) gs cb (world ?r1)) = None \<and>
        sunk (run_frames H svc (after ?r1) gs cb (world ?r1)) = [] \<and>
        speaking (after (run_frames H svc (after ?r1) gs cb (world ?r1))) 1 (length gs)
          ((f @ f) @ concat gs) (drop 3 gs)"
  proof (rule soft_run [OF o(3) assms(2) _ _ len])
    fix i :: nat
    show "SPEECH_RELEASE_RATIO \<le> speech_ratio (window 1 i)" if "0 < i" "i \<le> 3"
      using that by (rule ratio_hold1)
    show "speech_ratio (window 1 i) < SPEECH_RELEASE_RATIO" if "3 < i"
      by (rule ratio_low1) (use that in simp)
  qed
  then show ?thesis using o(1,2) by (simp add: Let_def)
qed

text \<open>
  Claim C5 (minimum length guarantee). The minimum, \<open>MIN_UTTERANCE_SAMPLES * 2\<close>, is
  \<open>MIN_UTTERANCE_DURATION_S * SAMPLE_RATE * 2 = 38400\<close> bytes. In segmentation mode
  every utterance that a \<open>process_audio_chunk\<close> call, or a sequence of such calls,
  hands to the callback has at least that many bytes. At finalization (Speaking, the
  ratio below the release ratio, the trailing-silence ring reaching its capacity with
  this frame) an accumulation that with this frame is shorter than the minimum is
  dropped: the callback is not invoked, nothing is raised, and the state is reset.
\<close>

theorem minimum_length_guarantee:
  "real min_utterance_bytes = MIN_UTTERANCE_DURATION_S * real SAMPLE_RATE * 2
   \<and> min_utterance_bytes = 38400
   \<and> (vad_model_loaded svc \<longrightarrow>
        (\<forall>u\<in>set (sunk (process_audio_chunk H svc cid audio cb w)). min_utterance_bytes \<le> length u)
        \<and> (\<forall>u\<in>set (sunk (feed H svc cid chunks cb w)). min_utterance_bytes \<le> length u))
   \<and> (in_speech st \<and> length f = FRAME_BYTES \<and> speech_prob H svc f w0 = (Inr p, w')
        \<and> speech_ratio (deque_append SPEECH_BUFFER_FRAMES (vad_decision_buffer st) (is_speech p))
            < SPEECH_RELEASE_RATIO
        \<and> length (deque_append TRAILING_SILENCE_FRAMES (trailing_silence_buffer st) f)
            = TRAILING_SILENCE_FRAMES
        \<and> length (speech_buffer st @ f) < min_utterance_bytes
      \<longrightarrow> process_frame H svc st f cb w0 = \<lparr>after = reset, world = w', sunk = [], raised = None\<rparr>)"
proof (intro conjI impI ballI)
  show "real min_utterance_bytes = MIN_UTTERANCE_DURATION_S * real SAMPLE_RATE * 2"
    by (simp add: min_utterance_bytes_eq MIN_UTTERANCE_DURATION_S_def SAMPLE_RATE_def)
  show "min_utterance_bytes = 38400" by (rule min_utterance_bytes_eq)
  show "min_utterance_bytes \<le> length u"
    if "vad_model_loaded svc" "u \<in> set (sunk (process_audio_chunk H svc cid audio cb w))" for u
    using that by (rule process_audio_chunk_sunk_length)
  show "min_utterance_bytes \<le> length u"
    if "vad_model_loaded svc" "u \<in> set (sunk (feed H svc cid chunks cb w))" for u
    using that by (rule feed_sunk_length)
  assume a: "in_speech st \<and> length f = FRAME_BYTES \<and> speech_prob H svc f w0 = (Inr p, w')
        \<and> speech_ratio (deque_append SPEECH_BUFFER_FRAMES (vad_decision_buffer st) (is_speech p))
            < SPEECH_RELEASE_RATIO
        \<and> length (deque_append TRAILING_SILENCE_FRAMES (trailing_silence_buffer st) f)
            = TRAILING_SILENCE_FRAMES
        \<and> length (speech_buffer st @ f) < min_utterance_bytes"
  then have eq: "process_frame H svc st f cb w0 = state_machine H st f (is_speech p) cb w'"
    by (simp add: process_frame_def)
  from a have "state_machine H st f (is_speech p) cb w' =
      returned reset w'
        (if min_utterance_bytes \<le> length (speech_buffer st @ f) \<and> cb
         then [speech_buffer st @ f] else [])"
    by (intro state_machine_finalize) simp_all
  with a show "process_frame H svc st f cb w0
      = \<lparr>after = reset, world = w', sunk = [], raised = None\<rparr>"
    unfolding eq by (simp add: returned_def)
qed

theorem minimum_length_guarantee_witness:
  "vad_model_loaded service0
   \<and> sunk (feed host0 service0 ''c'' (replicate 14 loud @ replicate 32 soft) True 0)
       = [loud @ concat (replicate 14 loud) @ concat (replicate 32 soft)]
   \<and> min_utterance_bytes \<le> length (loud @ concat (replicate 14 loud) @ concat (replicate 32 soft))
   \<and> in_speech (after (run_frames host0 service0 reset (loud # replicate 23 soft) True 0))
   \<and> length soft = FRAME_BYTES
   \<and> speech_prob host0 service0 soft
        (world (run_frames host0 service0 reset (loud # replicate 23 soft) True 0))
       = (Inr 0.05, Suc (world (run_frames host0 service0 reset (loud # replicate 23 soft) True 0)))
   \<and> speech_ratio (deque_append SPEECH_BUFFER_FRAMES
          (vad_decision_buffer (after (run_frames host0 service0 reset (loud # replicate 23 soft) True 0)))
          (is_speech 0.05)) < SPEECH_RELEASE_RATIO
   \<and> length (deque_append TRAILING_SILENCE_FRAMES
          (trailing_silence_buffer (after (run_frames host0 service0 reset (loud # replicate 23 soft) True 0)))
          soft) = TRAILING_SILENCE_FRAMES
   \<and> length (speech_buffer (after (run_frames host0 service0 reset (loud # replicate 23 soft) True 0))
               @ soft) = 26624
   \<and> process_frame host0 service0
        (after (run_frames host0 service0 reset (loud # replicate 23 soft) True 0)) soft True
        (world (run_frames host0 service0 reset (loud # replicate 23 soft) True 0))
       = \<lparr>after = reset,
          world = Suc (world (run_frames host0 service0 reset (loud # replicate 23 soft) True 0)),
          sunk = [], raised = None\<rparr>"
proof -
  let ?r = "run_frames host0 service0 reset (loud # replicate 23 soft) True 0"
  let ?u = "loud @ concat (replicate 14 loud) @ concat (replicate 32 soft)"
  have l: "vad_model_loaded service0" and c: "connections service0 ''c'' = None" by simp_all
  have sl: "scores host0 service0 loud 0.95" by (rule scores_loud) simp
  have ss: "scores host0 service0 soft 0.05" by (rule scores_soft) simp
  have a: "\<forall>f\<in>set (replicate 14 loud). scores host0 service0 f 0.95" using sl by simp
  have b: "\<forall>f\<in>set (replicate n soft). scores host0 service0 f 0.05" for n using ss by simp
  have su: "sunk (feed host0 service0 ''c'' (replicate 14 loud @ replicate 32 soft) True 0) = [?u]"
    using feed_final [OF l c _ a b, of 32 True 0] by simp
  note t = minimum_length_guarantee [where svc = service0 and H = host0 and cid = "''c''"
      and chunks = "replicate 14 loud @ replicate 32 soft" and cb = True and w = 0
      and st = "after ?r" and f = soft and ?w0.0 = "world ?r" and p = "0.05"
      and w' = "Suc (world ?r)"]
  note c2 = conjunct2
  note len = t [THEN c2, THEN c2, THEN conjunct1, rule_format, OF l, THEN conjunct2]
  note drop = t [THEN c2, THEN c2, THEN c2, rule_format]
  have m: "min_utterance_bytes \<le> length ?u"
    using len su by simp
  have h: "raised ?r = None" "sunk ?r = []"
    "speaking (after ?r) 1 23 (loud @ loud @ concat (replicate 23 soft)) (drop 3 (replicate 23 soft))"
    using short_hold [OF sl b, of 23 True 0] by simp_all
  have i: "in_speech (after ?r)" using h(3) by (simp add: speaking_def)
  have nsp: "is_speech 0.05 = False" using is_speech_005 by simp
  have dec: "deque_append SPEECH_BUFFER_FRAMES (vad_decision_buffer (after ?r)) (is_speech 0.05)
               = window 1 24"
    unfolding nsp using h(3) window_push_False [of 1 23] by (simp add: speaking_def)
  have low: "speech_ratio (deque_append SPEECH_BUFFER_FRAMES (vad_decision_buffer (after ?r))
               (is_speech 0.05)) < SPEECH_RELEASE_RATIO"
    unfolding dec by (rule ratio_low1) simp
  have tr: "length (deque_append TRAILING_SILENCE_FRAMES (trailing_silence_buffer (after ?r)) soft)
              = TRAILING_SILENCE_FRAMES"
    using h(3) by (simp add: speaking_def deque_append_short TRAILING_SILENCE_FRAMES_eq)
  have sb: "length (speech_buffer (after ?r) @ soft) = 26624"
    using h(3)
    by (simp add: speaking_def loud_length soft_length FRAME_BYTES_eq length_concat
        sum_list_replicate)
  have short: "length (speech_buffer (after ?r) @ soft) < min_utterance_bytes"
    unfolding sb by (simp add: min_utterance_bytes_eq)
  have sp: "speech_prob host0 service0 soft (world ?r) = (Inr 0.05, Suc (world ?r))"
    by (rule speech_prob_soft)
  have "process_frame host0 service0 (after ?r) soft True (world ?r)
       = \<lparr>after = reset, world = Suc (world ?r), sunk = [], raised = None\<rparr>"
    by (rule drop) (intro conjI i soft_length sp low tr short)
  with l su m i soft_length sp low tr sb show ?thesis by (intro conjI)
qed

end
